theory Spec2Isabelle
  imports Complex_Main "HOL-Library.Multiset"
begin

section \<open>Data model of the word quiz\<close>

text \<open>
  The repository holds three revisions of one React component, \<open>WordQuizApp\<close>:
  the first revision (immediate index change), the animation-gated revision (a
  \<open>pendingIndex\<close> that is committed when the card's CSS transition ends) and
  \<open>App.jsx\<close> (day slices cached by \<open>useMemo\<close>, shuffled once per day). The React
  state of a component is a tuple of \<open>useState\<close> cells; it is modelled as a record,
  and every handler is a function from the state to the state it leaves behind.
\<close>

text \<open>
  A word record is one parsed CSV row: an object whose keys are the column names,
  in column order. The cells are modelled as a string or \<open>null\<close> (an empty cell).

  The cells of the state keep their names. \<open>storedConfusing\<close> is the entry of
  \<open>localStorage\<close> under the key \<open>confusingWords\<close>; \<open>hiddenAnswers\<close> exists from the
  second revision on. The cell \<open>error\<close>, the message of a failed load, is read by no
  handler and is left out.
\<close>

type_synonym word_record = "(string \<times> string option) list"

datatype direction = KoToEn | EnToKo

datatype view = Card | ListView

record session =
  words :: "word_record list"
  currentDay :: int
  currentIndex :: int
  isFlipped :: bool
  mode :: direction
  confusingWords :: "word_record list"
  showConfusing :: bool
  totalDays :: int
  isLoading :: bool
  viewMode :: view
  hiddenAnswers :: "nat set"
  storedConfusing :: "string option"

text \<open>The animation-gated revision adds one cell, \<open>pendingIndex\<close> (\<open>null\<close> is \<open>None\<close>).\<close>

record gated = session +
  pendingIndex :: "int option"

subsection \<open>Array primitives of the host language\<close>

text \<open>
  \<open>Array.prototype.slice(start, end)\<close>: a negative bound counts from the end of the
  array, every bound is clamped into \<open>[0, length]\<close>, and an empty range gives the
  empty array.
\<close>

definition relative_index :: "int \<Rightarrow> int \<Rightarrow> int" where
  "relative_index len i = (if i < 0 then max (len + i) 0 else min i len)"

definition js_slice :: "'a list \<Rightarrow> int \<Rightarrow> int \<Rightarrow> 'a list" where
  "js_slice xs startIndex endIndex =
     (let len = int (length xs);
          k = relative_index len startIndex;
          final = relative_index len endIndex
      in take (nat (final - k)) (drop (nat k) xs))"

text \<open>\<open>xs[i]\<close>: \<open>undefined\<close> (here \<open>None\<close>) outside the array.\<close>

definition js_index :: "'a list \<Rightarrow> int \<Rightarrow> 'a option" where
  "js_index xs i = (if 0 \<le> i \<and> i < int (length xs) then Some (xs ! nat i) else None)"

subsection \<open>Handlers shared by the revisions\<close>

text \<open>
  \<open>toggleDirection\<close> and \<open>toggleViewMode\<close> are the inline click handlers of the
  direction button and of the view button.
\<close>

definition changeDay :: "int \<Rightarrow> 'a session_scheme \<Rightarrow> 'a session_scheme" where
  "changeDay day s =
     s\<lparr>currentDay := day, currentIndex := 0, isFlipped := False,
       showConfusing := False, hiddenAnswers := {}\<rparr>"

definition toggleConfusingMode :: "'a session_scheme \<Rightarrow> 'a session_scheme" where
  "toggleConfusingMode s =
     s\<lparr>showConfusing := \<not> showConfusing s, currentIndex := 0, isFlipped := False,
       hiddenAnswers := {}\<rparr>"

definition flipCard :: "'a session_scheme \<Rightarrow> 'a session_scheme" where
  "flipCard s = s\<lparr>isFlipped := \<not> isFlipped s\<rparr>"

definition toggleDirection :: "'a session_scheme \<Rightarrow> 'a session_scheme" where
  "toggleDirection s = s\<lparr>mode := (if mode s = KoToEn then EnToKo else KoToEn)\<rparr>"

definition toggleViewMode :: "'a session_scheme \<Rightarrow> 'a session_scheme" where
  "toggleViewMode s = s\<lparr>viewMode := (if viewMode s = Card then ListView else Card)\<rparr>"

section \<open>The animation-gated revision\<close>

definition getCurrentWords :: "'a session_scheme \<Rightarrow> word_record list" where
  "getCurrentWords s =
     (if showConfusing s then confusingWords s
      else (let startIndex = (currentDay s - 1) * 100;
                endIndex = startIndex + 100
            in js_slice (words s) startIndex endIndex))"

definition handleTransitionEnd :: "gated \<Rightarrow> gated" where
  "handleTransitionEnd s =
     (case pendingIndex s of
        Some p \<Rightarrow> s\<lparr>currentIndex := p, isFlipped := False, pendingIndex := None\<rparr>
      | None \<Rightarrow> s)"

definition goToWord :: "int \<Rightarrow> gated \<Rightarrow> gated" where
  "goToWord newIdx s =
     (if pendingIndex s \<noteq> None then s
      else s\<lparr>isFlipped := True, pendingIndex := Some newIdx\<rparr>)"

definition nextWord :: "gated \<Rightarrow> gated" where
  "nextWord s =
     (if currentIndex s < int (length (getCurrentWords s)) - 1
      then goToWord (currentIndex s + 1) s else s)"

definition prevWord :: "gated \<Rightarrow> gated" where
  "prevWord s = (if currentIndex s > 0 then goToWord (currentIndex s - 1) s else s)"

text \<open>A request to advance is a click on one of the two arrow buttons.\<close>

datatype advance = Forward | Backward

fun requestAdvance :: "advance \<Rightarrow> gated \<Rightarrow> gated" where
  "requestAdvance Forward s = nextWord s"
| "requestAdvance Backward s = prevWord s"

text \<open>The index a request aims at, and whether the guard of its handler lets it through.\<close>

fun target :: "advance \<Rightarrow> gated \<Rightarrow> int" where
  "target Forward s = currentIndex s + 1"
| "target Backward s = currentIndex s - 1"

fun in_range :: "advance \<Rightarrow> gated \<Rightarrow> bool" where
  "in_range Forward s = (currentIndex s < int (length (getCurrentWords s)) - 1)"
| "in_range Backward s = (currentIndex s > 0)"

text \<open>A concrete corpus and state for evaluating the handlers.\<close>

definition w1 :: word_record where
  "w1 = [(''ko'', Some ''sagwa''), (''en'', Some ''apple'')]"

definition w2 :: word_record where
  "w2 = [(''ko'', Some ''mul''), (''en'', Some ''water'')]"

definition w3 :: word_record where
  "w3 = [(''ko'', Some ''namu''), (''en'', None)]"

definition gated0 :: gated where
  "gated0 = \<lparr>words = [w1, w2, w3], currentDay = 1, currentIndex = 0, isFlipped = False,
     mode = KoToEn, confusingWords = [], showConfusing = False, totalDays = 1,
     isLoading = False, viewMode = Card, hiddenAnswers = {}, storedConfusing = None,
     pendingIndex = None\<rparr>"

section \<open>The revision with cached, shuffled day slices (App.jsx)\<close>

subsection \<open>Fisher-Yates shuffle\<close>

text \<open>
  \<open>Math.random()\<close> belongs to the environment. Its successive results are a
  sequence \<open>rnd\<close>, and \<open>pos\<close> counts the calls made so far; doubles are read as
  reals. The loop \<open>for (i = a.length - 1; i > 0; i -= 1)\<close> is a recursion on \<open>i\<close>;
  the destructuring swap reads both cells before it writes them.
\<close>

fun shuffle_loop :: "(nat \<Rightarrow> real) \<Rightarrow> nat \<Rightarrow> nat \<Rightarrow> 'a list \<Rightarrow> 'a list \<times> nat" where
  "shuffle_loop rnd pos 0 a = (a, pos)"
| "shuffle_loop rnd pos (Suc i') a =
     (let i = Suc i';
          j = nat \<lfloor>rnd pos * real (i + 1)\<rfloor>
      in shuffle_loop rnd (Suc pos) i' (a[i := a ! j, j := a ! i]))"

definition shuffleArray :: "(nat \<Rightarrow> real) \<Rightarrow> nat \<Rightarrow> 'a list \<Rightarrow> 'a list \<times> nat" where
  "shuffleArray rnd pos arr = (let a = arr in shuffle_loop rnd pos (length a - 1) a)"

text \<open>
  The same function over a store of arrays, where an array is known by its address (its
  position in the store): \<open>[...arr]\<close> allocates a fresh array, and the loop writes
  into that one.
\<close>

type_synonym 'a store = "'a list list"

fun shuffle_loop_store ::
  "(nat \<Rightarrow> real) \<Rightarrow> nat \<Rightarrow> nat \<Rightarrow> nat \<Rightarrow> 'a store \<Rightarrow> 'a store \<times> nat" where
  "shuffle_loop_store rnd pos 0 a h = (h, pos)"
| "shuffle_loop_store rnd pos (Suc i') a h =
     (let i = Suc i';
          j = nat \<lfloor>rnd pos * real (i + 1)\<rfloor>;
          cells = h ! a
      in shuffle_loop_store rnd (Suc pos) i' a (h[a := cells[i := cells ! j, j := cells ! i]]))"

definition shuffleArray_store ::
  "(nat \<Rightarrow> real) \<Rightarrow> nat \<Rightarrow> nat \<Rightarrow> 'a store \<Rightarrow> nat \<times> 'a store \<times> nat" where
  "shuffleArray_store rnd pos arr h =
     (let a = length h;
          h1 = h @ [h ! arr];
          (h2, pos') = shuffle_loop_store rnd pos (length (h1 ! a) - 1) a h1
      in (a, h2, pos'))"

text \<open>
  The loop driven by a list of chosen indices instead of random draws, the indices the
  draws choose, and all the index sequences the loop can be driven by when it starts at
  index \<open>i\<close> (the \<open>k\<close>-th choice ranges over \<open>0..i - k\<close>).
\<close>

fun shuffle_by :: "nat list \<Rightarrow> nat \<Rightarrow> 'a list \<Rightarrow> 'a list" where
  "shuffle_by js 0 a = a"
| "shuffle_by [] (Suc i') a = a"
| "shuffle_by (j # js) (Suc i') a =
     (let i = Suc i' in shuffle_by js i' (a[i := a ! j, j := a ! i]))"

fun chosen :: "(nat \<Rightarrow> real) \<Rightarrow> nat \<Rightarrow> nat \<Rightarrow> nat list" where
  "chosen rnd pos 0 = []"
| "chosen rnd pos (Suc i') = nat \<lfloor>rnd pos * real (Suc i' + 1)\<rfloor> # chosen rnd (Suc pos) i'"

fun all_choices :: "nat \<Rightarrow> nat list list" where
  "all_choices 0 = [[]]"
| "all_choices (Suc i') = concat (map (\<lambda>j. map ((#) j) (all_choices i')) [0..<Suc i' + 1])"

subsection \<open>Serialisation of word records\<close>

text \<open>
  \<open>JSON.stringify\<close> on a word record and on an array of word records: the members in
  key order, strings quoted with the escapes of the language standard (the two-character
  escapes, and a backslash, \<open>u\<close> and four hexadecimal digits for the other control
  characters).
\<close>

definition hex_digit :: "nat \<Rightarrow> char" where
  "hex_digit d = ''0123456789abcdef'' ! d"

definition json_escape :: "char \<Rightarrow> string" where
  "json_escape c =
     (if c = CHR 0x08 then [CHR 0x5C, CHR ''b'']
      else if c = CHR 0x09 then [CHR 0x5C, CHR ''t'']
      else if c = CHR 0x0A then [CHR 0x5C, CHR ''n'']
      else if c = CHR 0x0C then [CHR 0x5C, CHR ''f'']
      else if c = CHR 0x0D then [CHR 0x5C, CHR ''r'']
      else if c = CHR 0x22 then [CHR 0x5C, CHR 0x22]
      else if c = CHR 0x5C then [CHR 0x5C, CHR 0x5C]
      else if (of_char c :: nat) < 32
        then [CHR 0x5C, CHR ''u'', CHR ''0'', CHR ''0'',
              hex_digit (of_char c div 16), hex_digit (of_char c mod 16)]
      else [c])"

definition json_quote :: "string \<Rightarrow> string" where
  "json_quote s = CHR 0x22 # concat (map json_escape s) @ [CHR 0x22]"

definition json_value :: "string option \<Rightarrow> string" where
  "json_value v = (case v of None \<Rightarrow> ''null'' | Some s \<Rightarrow> json_quote s)"

definition json_member :: "string \<times> string option \<Rightarrow> string" where
  "json_member m = json_quote (fst m) @ '':'' @ json_value (snd m)"

fun json_join :: "string list \<Rightarrow> string" where
  "json_join [] = []"
| "json_join [x] = x"
| "json_join (x # y # ys) = x @ '','' @ json_join (y # ys)"

definition JSON_stringify :: "word_record \<Rightarrow> string" where
  "JSON_stringify w = ''{'' @ json_join (map json_member w) @ ''}''"

definition JSON_stringify_array :: "word_record list \<Rightarrow> string" where
  "JSON_stringify_array ws = ''['' @ json_join (map JSON_stringify ws) @ '']''"

subsection \<open>State and derived values\<close>

text \<open>
  \<open>useMemo\<close> keeps the value it computed together with the dependencies it computed
  it for, \<open>[words, currentDay]\<close>, and compares dependencies by identity: \<open>wordsRef\<close>
  stands for the identity of the array held in \<open>words\<close>.
\<close>

record day_slices =
  ordered :: "word_record list"
  shuffled :: "word_record list"

record app = session +
  wordsRef :: nat
  memo :: "((nat \<times> int) \<times> day_slices) option"
  randomSeq :: "nat \<Rightarrow> real"
  randomPos :: nat

definition dayCount :: "'a list \<Rightarrow> int" where
  "dayCount cleaned = \<lceil>real (length cleaned) / 100\<rceil>"

definition loadComplete :: "word_record list \<Rightarrow> app \<Rightarrow> app" where
  "loadComplete cleaned s =
     s\<lparr>words := cleaned, wordsRef := Suc (wordsRef s),
       totalDays := dayCount cleaned, isLoading := False\<rparr>"

definition daySlice :: "'a list \<Rightarrow> int \<Rightarrow> 'a list" where
  "daySlice ws day = (let start = (day - 1) * 100 in js_slice ws start (start + 100))"

definition computeDaySlices :: "app \<Rightarrow> day_slices \<times> app" where
  "computeDaySlices s =
     (let ordered = daySlice (words s) (currentDay s);
          (a, pos') = shuffleArray (randomSeq s) (randomPos s) ordered;
          v = \<lparr>ordered = ordered, shuffled = a\<rparr>
      in (v, s\<lparr>memo := Some ((wordsRef s, currentDay s), v), randomPos := pos'\<rparr>))"

definition daySlices :: "app \<Rightarrow> day_slices \<times> app" where
  "daySlices s =
     (case memo s of
        Some (deps, v) \<Rightarrow>
          if deps = (wordsRef s, currentDay s) then (v, s) else computeDaySlices s
      | None \<Rightarrow> computeDaySlices s)"

definition currentWords :: "app \<Rightarrow> word_record list" where
  "currentWords s =
     (if showConfusing s then confusingWords s
      else if viewMode s = Card then shuffled (fst (daySlices s))
      else ordered (fst (daySlices s)))"

definition currentWord :: "app \<Rightarrow> word_record option" where
  "currentWord s = js_index (currentWords s) (currentIndex s)"

subsection \<open>Handlers\<close>

definition prevWord_app :: "app \<Rightarrow> app" where
  "prevWord_app s =
     (if currentIndex s > 0
      then s\<lparr>isFlipped := False, currentIndex := currentIndex s - 1\<rparr> else s)"

definition nextWord_app :: "app \<Rightarrow> app" where
  "nextWord_app s =
     (if currentIndex s < int (length (currentWords s)) - 1
      then s\<lparr>isFlipped := False, currentIndex := currentIndex s + 1\<rparr> else s)"

definition addToConfusing :: "app \<Rightarrow> app" where
  "addToConfusing s =
     (case currentWord s of
        None \<Rightarrow> s
      | Some cw \<Rightarrow>
          (let found = list_ex (\<lambda>w. JSON_stringify w = JSON_stringify cw) (confusingWords s)
           in if \<not> found
              then (let updated = confusingWords s @ [cw]
                    in s\<lparr>confusingWords := updated,
                         storedConfusing := Some (JSON_stringify_array updated)\<rparr>)
              else s))"

definition removeFromConfusing :: "app \<Rightarrow> app" where
  "removeFromConfusing s =
     (let updated = map snd (filter (\<lambda>(i, w). int i \<noteq> currentIndex s)
                                    (enumerate 0 (confusingWords s)));
          s1 = s\<lparr>confusingWords := updated,
                 storedConfusing := Some (JSON_stringify_array updated)\<rparr>;
          s2 = (if currentIndex s \<ge> int (length updated) \<and> length updated \<noteq> 0
                then s1\<lparr>currentIndex := int (length updated) - 1\<rparr> else s1)
      in s2\<lparr>isFlipped := False\<rparr>)"

definition toggleAnswer :: "nat \<Rightarrow> app \<Rightarrow> app" where
  "toggleAnswer idx s =
     s\<lparr>hiddenAnswers := (if idx \<in> hiddenAnswers s then hiddenAnswers s - {idx}
                          else insert idx (hiddenAnswers s))\<rparr>"

definition toggleAllAnswers :: "app \<Rightarrow> app" where
  "toggleAllAnswers s =
     (if card (hiddenAnswers s) = length (currentWords s)
      then s\<lparr>hiddenAnswers := {}\<rparr>
      else s\<lparr>hiddenAnswers := {0..<length (currentWords s)}\<rparr>)"

subsection \<open>Events and rendering\<close>

text \<open>
  Every event runs its handler on the state of the last render and is followed by a
  render, which evaluates the \<open>useMemo\<close> hook.
\<close>

datatype event =
    FlipCard | PrevWord | NextWord | AddToConfusing | RemoveFromConfusing
  | ChangeDay int | ToggleConfusingMode | ToggleAnswer nat | ToggleAllAnswers
  | ToggleViewMode | ToggleDirection | LoadComplete "word_record list"

fun handle :: "event \<Rightarrow> app \<Rightarrow> app" where
  "handle FlipCard s = flipCard s"
| "handle PrevWord s = prevWord_app s"
| "handle NextWord s = nextWord_app s"
| "handle AddToConfusing s = addToConfusing s"
| "handle RemoveFromConfusing s = removeFromConfusing s"
| "handle (ChangeDay day) s = changeDay day s"
| "handle ToggleConfusingMode s = toggleConfusingMode s"
| "handle (ToggleAnswer idx) s = toggleAnswer idx s"
| "handle ToggleAllAnswers s = toggleAllAnswers s"
| "handle ToggleViewMode s = toggleViewMode s"
| "handle ToggleDirection s = toggleDirection s"
| "handle (LoadComplete cleaned) s = loadComplete cleaned s"

definition render :: "app \<Rightarrow> app" where
  "render s = snd (daySlices s)"

definition dispatch :: "event \<Rightarrow> app \<Rightarrow> app" where
  "dispatch e s = render (handle e s)"

text \<open>The state a freshly mounted component starts from, before its first render.\<close>

definition initial :: "(nat \<Rightarrow> real) \<Rightarrow> app" where
  "initial rnd = \<lparr>words = [], currentDay = 1, currentIndex = 0, isFlipped = False,
     mode = KoToEn, confusingWords = [], showConfusing = False, totalDays = 0,
     isLoading = True, viewMode = Card, hiddenAnswers = {}, storedConfusing = None,
     wordsRef = 0, memo = None, randomSeq = rnd, randomPos = 0\<rparr>"

text \<open>
  A state is rendered when the \<open>useMemo\<close> cell holds a value computed for the
  dependencies the state has now.
\<close>

definition rendered :: "app \<Rightarrow> bool" where
  "rendered s =
     (case memo s of Some (deps, v) \<Rightarrow> deps = (wordsRef s, currentDay s) | None \<Rightarrow> False)"

text \<open>
  Concrete states: a three-word corpus loaded into a fresh component whose random source
  always answers one half, and the same in confusing mode at the last of three
  bookmarked words, at the only bookmarked word, and with no bookmarked word.
\<close>

definition app1 :: app where
  "app1 = dispatch (LoadComplete [w1, w2, w3]) (render (initial (\<lambda>k. 1 / 2)))"

definition app3 :: app where
  "app3 = app1\<lparr>confusingWords := [w1, w2, w3], showConfusing := True, currentIndex := 2\<rparr>"

definition app4 :: app where
  "app4 = app1\<lparr>confusingWords := [w2], showConfusing := True\<rparr>"

definition app5 :: app where
  "app5 = app1\<lparr>showConfusing := True\<rparr>"

text \<open>
  The position invariant of the session: \<open>currentIndex\<close> is never negative, and in
  confusing mode it is a position of the confusing set, or 0 when that set is empty.
\<close>

definition position_ok :: "app \<Rightarrow> bool" where
  "position_ok s =
     (0 \<le> currentIndex s
      \<and> (if showConfusing s then currentIndex s < max 1 (int (length (confusingWords s)))
         else True))"

section \<open>Flip transition controller\<close>

lemma requestAdvance_transitioning:
  "pendingIndex s \<noteq> None \<Longrightarrow> requestAdvance a s = s"
  by (cases a) (simp_all add: nextWord_def prevWord_def goToWord_def)

lemma fold_requestAdvance_transitioning:
  "pendingIndex s \<noteq> None \<Longrightarrow> fold requestAdvance reqs s = s"
  by (induction reqs) (simp_all add: requestAdvance_transitioning)

lemma requestAdvance_accepted:
  "pendingIndex s = None \<Longrightarrow> in_range a s \<Longrightarrow>
   requestAdvance a s = s\<lparr>isFlipped := True, pendingIndex := Some (target a s)\<rparr>"
  by (cases a) (simp_all add: nextWord_def prevWord_def goToWord_def)

text \<open>
  C2. While a transition is in flight (\<open>pendingIndex\<close> is not \<open>null\<close>), \<open>goToWord\<close>,
  and with it \<open>nextWord\<close> and \<open>prevWord\<close>, return the session state they were given:
  \<open>pendingIndex\<close>, \<open>currentIndex\<close>, \<open>isFlipped\<close> and every other cell are untouched,
  so no second transition is started.
\<close>

theorem goToWord_mutual_exclusion:
  assumes "pendingIndex s \<noteq> None"
  shows "goToWord newIdx s = s \<and> nextWord s = s \<and> prevWord s = s
         \<and> pendingIndex (goToWord newIdx s) = pendingIndex s
         \<and> currentIndex (goToWord newIdx s) = currentIndex s
         \<and> isFlipped (goToWord newIdx s) = isFlipped s"
  using assms by (simp add: goToWord_def nextWord_def prevWord_def)

theorem goToWord_mutual_exclusion_witness:
  "pendingIndex (nextWord gated0) = Some 1
   \<and> goToWord 2 (nextWord gated0) = nextWord gated0
   \<and> nextWord (nextWord gated0) = nextWord gated0
   \<and> prevWord (nextWord gated0) = nextWord gated0"
proof -
  have p: "pendingIndex (nextWord gated0) = Some 1"
    by (simp add: nextWord_def goToWord_def getCurrentWords_def js_slice_def relative_index_def gated0_def)
  then have "pendingIndex (nextWord gated0) \<noteq> None" by simp
  from goToWord_mutual_exclusion [OF this, of 2] p show ?thesis by simp
qed

text \<open>
  C3. When the transition-end signal fires while \<open>pendingIndex\<close> holds an index,
  the handler commits it: \<open>currentIndex\<close> becomes that index, \<open>isFlipped\<close> becomes
  false and \<open>pendingIndex\<close> becomes \<open>null\<close>. When \<open>pendingIndex\<close> is \<open>null\<close> the
  signal changes nothing. And from a settled state, an accepted advance followed by
  any further requests and then the signal applies exactly the first advance.
\<close>

theorem handleTransitionEnd_commit:
  "(pendingIndex s = Some p \<longrightarrow>
      handleTransitionEnd s = s\<lparr>currentIndex := p, isFlipped := False, pendingIndex := None\<rparr>)
   \<and> (pendingIndex s = None \<longrightarrow> handleTransitionEnd s = s)
   \<and> (pendingIndex s = None \<and> in_range a s \<longrightarrow>
        handleTransitionEnd (fold requestAdvance reqs (requestAdvance a s))
          = s\<lparr>currentIndex := target a s, isFlipped := False, pendingIndex := None\<rparr>)"
proof (intro conjI impI)
  assume "pendingIndex s = Some p"
  then show "handleTransitionEnd s
      = s\<lparr>currentIndex := p, isFlipped := False, pendingIndex := None\<rparr>"
    by (simp add: handleTransitionEnd_def)
next
  assume "pendingIndex s = None"
  then show "handleTransitionEnd s = s"
    by (simp add: handleTransitionEnd_def)
next
  assume a: "pendingIndex s = None \<and> in_range a s"
  let ?t = "s\<lparr>isFlipped := True, pendingIndex := Some (target a s)\<rparr>"
  from a have acc: "requestAdvance a s = ?t"
    by (simp add: requestAdvance_accepted)
  have "pendingIndex ?t \<noteq> None" by simp
  then have "fold requestAdvance reqs ?t = ?t"
    by (rule fold_requestAdvance_transitioning)
  with acc show "handleTransitionEnd (fold requestAdvance reqs (requestAdvance a s))
      = s\<lparr>currentIndex := target a s, isFlipped := False, pendingIndex := None\<rparr>"
    by (simp add: handleTransitionEnd_def)
qed

theorem handleTransitionEnd_commit_witness:
  "pendingIndex gated0 = None \<and> in_range Forward gated0
   \<and> handleTransitionEnd gated0 = gated0
   \<and> pendingIndex (nextWord gated0) = Some 1
   \<and> handleTransitionEnd (nextWord gated0) = gated0\<lparr>currentIndex := 1\<rparr>
   \<and> handleTransitionEnd (fold requestAdvance [Forward, Backward, Forward]
        (requestAdvance Forward gated0)) = gated0\<lparr>currentIndex := 1\<rparr>"
proof -
  have n: "pendingIndex gated0 = None"
    by (simp add: gated0_def)
  have r: "in_range Forward gated0"
    by (simp add: getCurrentWords_def js_slice_def relative_index_def gated0_def)
  have nx: "nextWord gated0 = gated0\<lparr>isFlipped := True, pendingIndex := Some 1\<rparr>"
    using requestAdvance_accepted [OF n r] by (simp add: gated0_def)
  have e: "gated0\<lparr>currentIndex := 1, isFlipped := False, pendingIndex := None\<rparr>
      = gated0\<lparr>currentIndex := 1\<rparr>"
    by (simp add: gated0_def)
  have t: "target Forward gated0 = 1"
    by (simp add: gated0_def)
  from handleTransitionEnd_commit [of gated0 1 Forward "[Forward, Backward, Forward]"]
    handleTransitionEnd_commit [of "nextWord gated0" 1 Forward "[]"]
    n r nx e t
  show ?thesis by simp
qed

section \<open>Changing the day\<close>

text \<open>
  C10. \<open>changeDay d\<close> leaves confusing mode whatever the state was: afterwards
  \<open>showConfusing\<close> is false, \<open>currentDay\<close> is \<open>d\<close>, \<open>currentIndex\<close> is 0,
  \<open>isFlipped\<close> is false and no answer is marked hidden. The handler has no guard on
  \<open>showConfusing\<close>; only the day selector is disabled in confusing mode.
\<close>

theorem changeDay_exits_confusing:
  "showConfusing (changeDay d s) = False
   \<and> currentDay (changeDay d s) = d
   \<and> currentIndex (changeDay d s) = 0
   \<and> isFlipped (changeDay d s) = False
   \<and> hiddenAnswers (changeDay d s) = {}
   \<and> words (changeDay d s) = words s
   \<and> confusingWords (changeDay d s) = confusingWords s"
  by (simp add: changeDay_def)

section \<open>Day partitioner\<close>

lemma dayCount_div: "dayCount ws = int ((length ws + 99) div 100)"
proof -
  define n where "n = length ws"
  define m where "m = (n + 99) div 100"
  have "n \<le> 100 * m" "100 * m < n + 100"
    unfolding m_def by arith+
  then have "real n \<le> real (100 * m)" "real (100 * m) < real (n + 100)"
    by (simp_all only: of_nat_le_iff of_nat_less_iff)
  then have "real_of_int (int m) - 1 < real n / 100 \<and> real n / 100 \<le> real_of_int (int m)"
    by simp
  then have "\<lceil>real n / 100\<rceil> = int m"
    by (intro ceiling_unique) simp_all
  then show ?thesis by (simp add: dayCount_def n_def m_def)
qed

lemma relative_index_range:
  "0 \<le> len \<Longrightarrow> 0 \<le> relative_index len i \<and> relative_index len i \<le> len"
  by (simp add: relative_index_def)

lemma length_js_slice:
  "length (js_slice xs a b)
     = nat (relative_index (int (length xs)) b - relative_index (int (length xs)) a)"
proof -
  let ?n = "int (length xs)"
  have "0 \<le> relative_index ?n a" "relative_index ?n b \<le> ?n"
    using relative_index_range [of ?n] by simp_all
  then show ?thesis
    by (simp add: js_slice_def Let_def)
qed

lemma js_slice_nonneg:
  assumes "0 \<le> a"
  shows "js_slice xs a (a + 100) = take 100 (drop (nat a) xs)"
proof -
  let ?n = "int (length xs)"
  consider "a + 100 \<le> ?n" | "a \<le> ?n" "?n < a + 100" | "?n < a" by linarith
  then show ?thesis
  proof cases
    case 1
    with assms have "relative_index ?n a = a" "relative_index ?n (a + 100) = a + 100"
      by (simp_all add: relative_index_def)
    then show ?thesis by (simp add: js_slice_def Let_def)
  next
    case 2
    with assms have "relative_index ?n a = a" "relative_index ?n (a + 100) = ?n"
      by (simp_all add: relative_index_def)
    moreover from 2 assms have "length xs - nat a \<le> 100" "length xs - nat a \<le> nat (?n - a)"
      by linarith+
    ultimately show ?thesis by (simp add: js_slice_def Let_def)
  next
    case 3
    with assms have "relative_index ?n a = ?n" "relative_index ?n (a + 100) = ?n"
      by (simp_all add: relative_index_def)
    moreover from 3 have "length xs \<le> nat a" by linarith
    ultimately show ?thesis by (simp add: js_slice_def Let_def)
  qed
qed

lemma daySlice_pos:
  assumes "1 \<le> d"
  shows "daySlice ws d = take 100 (drop (nat ((d - 1) * 100)) ws)"
proof -
  from assms have "0 \<le> (d - 1) * 100" by simp
  then show ?thesis by (simp only: daySlice_def Let_def js_slice_nonneg)
qed

lemma daySlice_zero: "daySlice ws 0 = []"
  by (simp add: daySlice_def js_slice_def relative_index_def)

lemma js_slice_neg_empty:
  assumes "b < 0" "a < b"
  shows "(js_slice xs a b = []) = (int (length xs) + b \<le> 0)"
proof -
  let ?n = "int (length xs)"
  from assms have k: "relative_index ?n a = max (?n + a) 0"
    and f: "relative_index ?n b = max (?n + b) 0"
    by (simp_all add: relative_index_def)
  have "(js_slice xs a b = []) = (length (js_slice xs a b) = 0)" by simp
  also have "\<dots> = (max (?n + b) 0 \<le> max (?n + a) 0)"
    by (simp only: length_js_slice k f) simp
  also from assms have "\<dots> = (?n + b \<le> 0)"
    by linarith
  finally show ?thesis .
qed

lemma daySlice_neg:
  assumes "d < 0"
  shows "(daySlice ws d = []) = (int (length ws) \<le> 100 * (- d))"
proof -
  from assms have "(d - 1) * 100 + 100 < 0" "(d - 1) * 100 < (d - 1) * 100 + 100" by simp_all
  then have "(js_slice ws ((d - 1) * 100) ((d - 1) * 100 + 100) = [])
      = (int (length ws) + ((d - 1) * 100 + 100) \<le> 0)"
    by (rule js_slice_neg_empty)
  moreover have "(int (length ws) + ((d - 1) * 100 + 100) \<le> 0) = (int (length ws) \<le> 100 * (- d))"
    by auto
  ultimately show ?thesis by (simp only: daySlice_def Let_def)
qed

lemma daySlice_beyond:
  assumes "d > dayCount ws"
  shows "daySlice ws d = []"
proof -
  define m where "m = (length ws + 99) div 100"
  have "length ws \<le> m * 100" unfolding m_def by arith
  moreover from assms have "int m < d" by (simp add: dayCount_div m_def)
  then have "m \<le> nat (d - 1)" by linarith
  then have "m * 100 \<le> nat (d - 1) * 100" by simp
  ultimately have "length ws \<le> nat (d - 1) * 100" by linarith
  moreover from \<open>int m < d\<close> have d: "1 \<le> d" by linarith
  ultimately show ?thesis by (simp add: daySlice_pos nat_mult_distrib)
qed

lemma length_daySlice: "length (daySlice ws d) \<le> 100"
proof (cases "1 \<le> d")
  case True
  then show ?thesis by (simp add: daySlice_pos)
next
  case False
  let ?n = "int (length ws)"
  define a where "a = (d - 1) * 100"
  from False have a: "a < 0" "a + 100 \<le> 0" by (simp_all add: a_def)
  then have "relative_index ?n a = max (?n + a) 0" 
    by (simp add: relative_index_def)
  moreover from a have "relative_index ?n (a + 100) \<le> max (?n + a + 100) 0"
    by (auto simp add: relative_index_def)
  ultimately have "nat (relative_index ?n (a + 100) - relative_index ?n a) \<le> 100"
    by linarith
  then show ?thesis by (simp add: daySlice_def Let_def length_js_slice a_def)
qed

lemma concat_chunks: "concat (map (\<lambda>k. take 100 (drop (k * 100) ws)) [0..<m]) = take (m * 100) ws"
proof (induction m)
  case 0 show ?case by simp
next
  case (Suc m)
  have "take (m * 100) ws @ take 100 (drop (m * 100) ws) = take (m * 100 + 100) ws"
    by (simp add: take_add)
  with Suc show ?case by (simp add: add.commute)
qed

lemma upto_as_upt: "[1..int m] = map (\<lambda>k. int k + 1) [0..<m]"
  apply (induction m)
   apply simp
  apply (simp add: upto_rec2)
  done

lemma concat_daySlices: "concat (map (daySlice ws) [1..dayCount ws]) = ws"
proof -
  let ?m = "(length ws + 99) div 100"
  have "map (daySlice ws) [1..int ?m] = map (\<lambda>k. take 100 (drop (k * 100) ws)) [0..<?m]"
    by (simp add: upto_as_upt daySlice_pos o_def nat_mult_distrib)
  then have "concat (map (daySlice ws) [1..int ?m]) = take (?m * 100) ws"
    by (simp add: concat_chunks)
  moreover have "length ws \<le> ?m * 100" by arith
  ultimately show ?thesis by (simp add: dayCount_div)
qed

lemma getCurrentWords_daySlice:
  "\<not> showConfusing s \<Longrightarrow> getCurrentWords s = daySlice (words s) (currentDay s)"
  by (simp add: getCurrentWords_def daySlice_def Let_def)

lemma daySlice_in_range_nonempty:
  assumes "1 \<le> d" "d \<le> dayCount ws"
  shows "daySlice ws d \<noteq> []"
proof -
  define m where "m = (length ws + 99) div 100"
  from assms have "nat d \<le> m" by (simp add: dayCount_div m_def)
  moreover have "m * 100 < length ws + 100" unfolding m_def by arith
  ultimately have "nat d * 100 < length ws + 100"
    by (meson le_less_trans mult_le_mono1)
  moreover from assms have "nat d = Suc (nat (d - 1))" by linarith
  ultimately have "nat (d - 1) * 100 < length ws" by simp
  with assms show ?thesis by (simp add: daySlice_pos nat_mult_distrib)
qed

text \<open>
  C4. With pages of 100 words, \<open>loadCSV\<close> stores \<open>dayCount = ceil(n / 100)\<close> for a
  corpus of \<open>n\<close> words; for every day \<open>d\<close> from 1 to \<open>dayCount\<close> the slice of the day is
  \<open>words[(d-1)*100 : d*100]\<close> and is not empty; every slice has at most 100 words;
  the slices of the days 1 to \<open>dayCount\<close>, in order, concatenate to the corpus. A corpus
  of 250 words has 3 days, and day 3 has 50 words.
\<close>

theorem day_partition:
  "totalDays (loadComplete ws s) = dayCount ws
   \<and> dayCount ws = \<lceil>real (length ws) / 100\<rceil>
   \<and> dayCount ws = int ((length ws + 99) div 100)
   \<and> (\<forall>d. 1 \<le> d \<and> d \<le> dayCount ws \<longrightarrow>
          daySlice ws d = drop (nat ((d - 1) * 100)) (take (nat (d * 100)) ws)
          \<and> daySlice ws d \<noteq> [])
   \<and> (\<forall>d. length (daySlice ws d) \<le> 100)
   \<and> concat (map (daySlice ws) [1..dayCount ws]) = ws
   \<and> ordered (fst (computeDaySlices s)) = daySlice (words s) (currentDay s)
   \<and> (length ws = 250 \<longrightarrow> dayCount ws = 3 \<and> length (daySlice ws 3) = 50)"
proof (intro conjI allI impI)
  show "totalDays (loadComplete ws s) = dayCount ws"
    by (simp add: loadComplete_def)
  show "dayCount ws = \<lceil>real (length ws) / 100\<rceil>"
    by (simp add: dayCount_def)
  show "dayCount ws = int ((length ws + 99) div 100)"
    by (rule dayCount_div)
  show "length (daySlice ws d) \<le> 100" for d
    by (rule length_daySlice)
  show "concat (map (daySlice ws) [1..dayCount ws]) = ws"
    by (rule concat_daySlices)
  show "ordered (fst (computeDaySlices s)) = daySlice (words s) (currentDay s)"
    by (simp add: computeDaySlices_def Let_def split: prod.split)
  show "daySlice ws d = drop (nat ((d - 1) * 100)) (take (nat (d * 100)) ws)"
    if "1 \<le> d \<and> d \<le> dayCount ws" for d
  proof -
    from that have "nat d = Suc (nat (d - 1))" by linarith
    then have e: "nat d * 100 - nat (d - 1) * 100 = 100" by simp
    from that have a: "nat ((d - 1) * 100) = nat (d - 1) * 100"
      and b: "nat (d * 100) = nat d * 100"
      by (subst nat_mult_distrib; simp)+
    from that have "daySlice ws d = take 100 (drop (nat ((d - 1) * 100)) ws)"
      by (simp only: daySlice_pos)
    then show ?thesis by (simp only: drop_take a b e)
  qed
  show "daySlice ws d \<noteq> []" if "1 \<le> d \<and> d \<le> dayCount ws" for d
    using that by (simp add: daySlice_in_range_nonempty)
  show "dayCount ws = 3" if "length ws = 250"
    using that by (simp add: dayCount_div)
  show "length (daySlice ws 3) = 50" if "length ws = 250"
    using that by (simp add: daySlice_pos)
qed

theorem day_partition_witness:
  "dayCount (replicate 250 w1) = 3
   \<and> daySlice (replicate 250 w1) 3 = replicate 50 w1
   \<and> length (daySlice (replicate 250 w1) 3) = 50
   \<and> concat (map (daySlice (replicate 250 w1)) [1..3]) = replicate 250 w1"
proof -
  have l: "length (replicate 250 w1) = 250" by simp
  have c: "dayCount (replicate 250 w1) = 3"
    using day_partition [of "replicate 250 w1" "initial (\<lambda>k. 0)"] l by blast
  have d: "daySlice (replicate 250 w1) 3 = replicate 50 w1"
    using day_partition [of "replicate 250 w1" "initial (\<lambda>k. 0)"] c by simp
  from day_partition [of "replicate 250 w1" "initial (\<lambda>k. 0)"] c d
  show ?thesis by simp
qed

text \<open>
  For a day below 0 both bounds of the slice are negative, and \<open>slice\<close> counts a
  negative bound from the end of the array: with 150 words, day \<open>-1\<close> is outside
  \<open>[1, 2]\<close> and its slice is \<open>words[0 : 50]\<close>, in both revisions.
\<close>

theorem day_out_of_range_counterexample:
  "dayCount (replicate 150 w1) = 2 \<and> (- 1 :: int) < 1
   \<and> daySlice (replicate 150 w1) (- 1) = replicate 50 w1
   \<and> getCurrentWords (gated0\<lparr>words := replicate 150 w1, currentDay := - 1\<rparr>)
       = replicate 50 w1
   \<and> ordered (fst (computeDaySlices
         ((initial (\<lambda>k. 1 / 2))\<lparr>words := replicate 150 w1, currentDay := - 1\<rparr>)))
       = replicate 50 w1"
  by (simp add: dayCount_def daySlice_def getCurrentWords_def js_slice_def
      relative_index_def gated0_def computeDaySlices_def initial_def Let_def
      split: prod.split)

text \<open>
  C5 (amended). For day 0 and for every day above \<open>dayCount\<close> the slice of the day is
  empty; for a day below 0 it is empty exactly when the corpus has at most
  \<open>100 * |day|\<close> words. The animation-gated revision computes the same slice, and in
  \<open>App.jsx\<close> an empty slice is cached with an empty shuffled slice.
\<close>

theorem day_out_of_range:
  "(d = 0 \<or> dayCount ws < d \<longrightarrow> daySlice ws d = [])
   \<and> (d < 0 \<longrightarrow> (daySlice ws d = []) = (int (length ws) \<le> 100 * (- d)))
   \<and> (\<not> showConfusing s \<longrightarrow> getCurrentWords s = daySlice (words s) (currentDay s))
   \<and> (currentDay a = 0 \<or> dayCount (words a) < currentDay a \<longrightarrow>
        fst (computeDaySlices a) = \<lparr>ordered = [], shuffled = []\<rparr>)"
proof (intro conjI impI)
  assume "d = 0 \<or> dayCount ws < d"
  then show "daySlice ws d = []"
    by (auto simp: daySlice_zero daySlice_beyond)
next
  assume "d < 0"
  then show "(daySlice ws d = []) = (int (length ws) \<le> 100 * (- d))"
    by (rule daySlice_neg)
next
  assume "\<not> showConfusing s"
  then show "getCurrentWords s = daySlice (words s) (currentDay s)"
    by (rule getCurrentWords_daySlice)
next
  assume "currentDay a = 0 \<or> dayCount (words a) < currentDay a"
  then have "daySlice (words a) (currentDay a) = []"
    by (auto simp: daySlice_zero daySlice_beyond)
  then show "fst (computeDaySlices a) = \<lparr>ordered = [], shuffled = []\<rparr>"
    by (simp add: computeDaySlices_def shuffleArray_def Let_def)
qed

theorem day_out_of_range_witness:
  "dayCount [w1, w2, w3] = 1 \<and> daySlice [w1, w2, w3] 2 = [] \<and> daySlice [w1, w2, w3] 0 = []
   \<and> daySlice [w1, w2, w3] (- 1) = []
   \<and> getCurrentWords (gated0\<lparr>currentDay := 2\<rparr>) = []
   \<and> fst (computeDaySlices (initial (\<lambda>k. 0))) = \<lparr>ordered = [], shuffled = []\<rparr>"
proof -
  have c: "dayCount [w1, w2, w3] = 1" "dayCount (words (initial (\<lambda>k. 0))) = 0"
    "currentDay (initial (\<lambda>k. 0)) = 1"
    by (simp_all add: dayCount_def initial_def)
  have n: "\<not> showConfusing (gated0\<lparr>currentDay := 2\<rparr>)" by (simp add: gated0_def)
  from day_out_of_range [of 2 "[w1, w2, w3]" "gated0\<lparr>currentDay := 2\<rparr>" "initial (\<lambda>k. 0)"]
    day_out_of_range [of 0 "[w1, w2, w3]" gated0 "initial (\<lambda>k. 0)"]
    day_out_of_range [of "- 1" "[w1, w2, w3]" gated0 "initial (\<lambda>k. 0)"] c n
  show ?thesis by (simp add: gated0_def)
qed

section \<open>Evaluating the concrete states\<close>

lemma shuffle_half: "shuffleArray (\<lambda>k. 1 / 2) 0 [w1, w2, w3] = ([w1, w3, w2], 2)"
  by (simp add: shuffleArray_def eval_nat_numeral)

lemma render_initial:
  "render (initial rnd) = (initial rnd)\<lparr>memo := Some ((0, 1), \<lparr>ordered = [], shuffled = []\<rparr>)\<rparr>"
  by (simp add: render_def daySlices_def computeDaySlices_def initial_def daySlice_def
      js_slice_def relative_index_def shuffleArray_def Let_def)

lemma app1_eq: "app1 = \<lparr>words = [w1, w2, w3], currentDay = 1, currentIndex = 0, isFlipped = False,
     mode = KoToEn, confusingWords = [], showConfusing = False, totalDays = 1,
     isLoading = False, viewMode = Card, hiddenAnswers = {}, storedConfusing = None,
     wordsRef = 1, memo = Some ((1, 1), \<lparr>ordered = [w1, w2, w3], shuffled = [w1, w3, w2]\<rparr>),
     randomSeq = (\<lambda>k. 1 / 2), randomPos = 2\<rparr>"
  unfolding app1_def dispatch_def render_initial
  by (simp add: render_def daySlices_def computeDaySlices_def initial_def daySlice_def
      js_slice_def relative_index_def shuffle_half loadComplete_def dayCount_def Let_def)

lemma currentWords_app1: "currentWords app1 = [w1, w3, w2]"
  by (simp add: app1_eq currentWords_def daySlices_def)

section \<open>Study session: moving between words\<close>

text \<open>
  C6. With a non-empty active word set, \<open>nextWord\<close> at the last index and
  \<open>prevWord\<close> at index 0 return the state they were given: no cell changes. The same
  holds for the animation-gated revision, where no transition is started either.
\<close>

theorem boundary_noops:
  assumes "currentWords s \<noteq> []"
  shows "(currentIndex s = int (length (currentWords s)) - 1 \<longrightarrow> nextWord_app s = s)
         \<and> (currentIndex s = 0 \<longrightarrow> prevWord_app s = s)
         \<and> (currentIndex g = int (length (getCurrentWords g)) - 1 \<longrightarrow> nextWord g = g)
         \<and> (currentIndex g = 0 \<longrightarrow> prevWord g = g)"
  by (simp add: nextWord_app_def prevWord_app_def nextWord_def prevWord_def)

theorem boundary_noops_witness:
  "currentWords app1 \<noteq> []
   \<and> nextWord_app (app1\<lparr>currentIndex := 2\<rparr>) = app1\<lparr>currentIndex := 2\<rparr>
   \<and> prevWord_app app1 = app1
   \<and> nextWord (gated0\<lparr>currentIndex := 2\<rparr>) = gated0\<lparr>currentIndex := 2\<rparr>
   \<and> prevWord gated0 = gated0"
proof -
  have c: "currentWords (app1\<lparr>currentIndex := 2\<rparr>) = [w1, w3, w2]"
    by (simp add: app1_eq currentWords_def daySlices_def)
  have g: "getCurrentWords (gated0\<lparr>currentIndex := 2\<rparr>) = [w1, w2, w3]"
    by (simp add: gated0_def getCurrentWords_def js_slice_def relative_index_def)
  have i: "currentIndex app1 = 0" "currentIndex gated0 = 0"
    by (simp_all add: app1_eq gated0_def)
  from c have n: "currentWords (app1\<lparr>currentIndex := 2\<rparr>) \<noteq> []" by simp
  have n': "currentWords app1 \<noteq> []" by (simp add: currentWords_app1)
  from boundary_noops [OF n, of "gated0\<lparr>currentIndex := 2\<rparr>"]
    boundary_noops [OF n', of gated0] c g i n'
  show ?thesis by simp
qed

section \<open>Confusing-set store: removing\<close>

lemma filter_enumerate_neq:
  "map snd (filter (\<lambda>(i, w). i \<noteq> n + k) (enumerate n xs)) = take k xs @ drop (Suc k) xs"
proof (induction xs arbitrary: n k)
  case Nil
  show ?case by simp
next
  case (Cons x xs)
  show ?case
  proof (cases k)
    case 0
    have "filter (\<lambda>(i, w). i \<noteq> n) (enumerate (Suc n) xs) = enumerate (Suc n) xs"
      by (rule filter_True) (auto simp: in_set_enumerate_eq)
    with 0 show ?thesis by simp
  next
    case (Suc k')
    with Cons.IH [of "Suc n" k'] show ?thesis by simp
  qed
qed

lemma removed_at:
  assumes "0 \<le> k"
  shows "map snd (filter (\<lambda>(i, w). int i \<noteq> k) (enumerate 0 xs))
         = take (nat k) xs @ drop (Suc (nat k)) xs"
proof -
  from assms have "(\<lambda>(i, w). int i \<noteq> k) = (\<lambda>(i, w::'a). i \<noteq> 0 + nat k)"
    by (auto simp: fun_eq_iff)
  then show ?thesis by (simp only: filter_enumerate_neq)
qed

lemma removed_length:
  assumes "0 \<le> k"
  shows "length (map snd (filter (\<lambda>(i, w). int i \<noteq> k) (enumerate 0 xs)))
         = (if k < int (length xs) then length xs - 1 else length xs)"
proof -
  from assms have "length (take (nat k) xs @ drop (Suc (nat k)) xs)
      = (if k < int (length xs) then length xs - 1 else length xs)"
    by auto
  with assms show ?thesis by (simp only: removed_at)
qed

text \<open>
  The position invariant holds in every state the component can reach, whatever the
  saved confusing set it starts with and whatever the events.
\<close>

lemma position_ok_handle:
  assumes "position_ok s"
  shows "position_ok (handle e s)"
proof (cases e)
  case RemoveFromConfusing
  let ?u = "map snd (filter (\<lambda>(i, w). int i \<noteq> currentIndex s) (enumerate 0 (confusingWords s)))"
  define k where "k = currentIndex s"
  define n where "n = int (length (confusingWords s))"
  define n' where "n' = int (length ?u)"
  from assms have k: "0 \<le> k" and b: "showConfusing s \<longrightarrow> k < max 1 n"
    by (simp_all add: position_ok_def k_def n_def)
  from removed_length [of "currentIndex s" "confusingWords s"] k
  have l: "n' = (if k < n then n - 1 else n)"
    by (simp add: k_def n_def n'_def del: length_map)
  have f: "currentIndex (removeFromConfusing s) = (if k \<ge> n' \<and> n' \<noteq> 0 then n' - 1 else k)"
    "int (length (confusingWords (removeFromConfusing s))) = n'"
    "showConfusing (removeFromConfusing s) = showConfusing s"
    by (simp_all add: removeFromConfusing_def Let_def k_def n'_def)
  have "0 \<le> n'" by (simp add: n'_def)
  with k b l have "0 \<le> (if k \<ge> n' \<and> n' \<noteq> 0 then n' - 1 else k)"
    "showConfusing s \<longrightarrow> (if k \<ge> n' \<and> n' \<noteq> 0 then n' - 1 else k) < max 1 n'"
    by (auto split: if_splits)
  then have "position_ok (removeFromConfusing s)"
    by (simp only: position_ok_def f) simp
  with RemoveFromConfusing show ?thesis by simp
next
  case AddToConfusing
  from assms have "position_ok (addToConfusing s)"
    by (auto simp: position_ok_def addToConfusing_def Let_def split: option.splits if_splits)
  with AddToConfusing show ?thesis by simp
next
  case NextWord
  from assms have "position_ok (nextWord_app s)"
    by (auto simp: position_ok_def nextWord_app_def currentWords_def split: if_splits)
  with NextWord show ?thesis by simp
next
  case PrevWord
  from assms have "position_ok (prevWord_app s)"
    by (auto simp: position_ok_def prevWord_app_def split: if_splits)
  with PrevWord show ?thesis by simp
qed (use assms in \<open>auto simp: position_ok_def flipCard_def changeDay_def toggleConfusingMode_def
      toggleAnswer_def toggleAllAnswers_def toggleViewMode_def toggleDirection_def
      loadComplete_def split: if_splits\<close>)

lemma position_ok_render: "position_ok (render s) = position_ok s"
  by (simp add: position_ok_def render_def daySlices_def computeDaySlices_def Let_def
      split: option.split prod.split)

lemma position_ok_reachable:
  "position_ok (fold dispatch evs (render ((initial rnd)\<lparr>confusingWords := saved\<rparr>)))"
proof -
  have "position_ok s \<Longrightarrow> position_ok (fold dispatch evs s)" for s
    by (induction evs arbitrary: s)
       (simp_all add: dispatch_def position_ok_render position_ok_handle)
  moreover have "position_ok (render ((initial rnd)\<lparr>confusingWords := saved\<rparr>))"
    by (simp add: position_ok_render) (simp add: position_ok_def initial_def)
  ultimately show ?thesis by blast
qed

text \<open>
  C8. When \<open>currentIndex\<close> is a position of the confusing set (or 0 and the set is
  empty), \<open>removeFromConfusing\<close> deletes the element at that position and writes the
  new set to the store; if \<open>currentIndex\<close> is then at or beyond the new length it
  becomes the new length minus one, and it is 0 when the set is empty, so that it is
  again a position of a non-empty set. With three words and \<open>currentIndex = 2\<close> the
  result is \<open>currentIndex = 1\<close>.
\<close>

theorem removeFromConfusing_reclamp:
  assumes "0 \<le> currentIndex s"
    and "currentIndex s < max 1 (int (length (confusingWords s)))"
  shows "confusingWords (removeFromConfusing s)
           = take (nat (currentIndex s)) (confusingWords s)
             @ drop (Suc (nat (currentIndex s))) (confusingWords s)
         \<and> length (confusingWords (removeFromConfusing s)) = length (confusingWords s) - 1
         \<and> storedConfusing (removeFromConfusing s)
             = Some (JSON_stringify_array (confusingWords (removeFromConfusing s)))
         \<and> currentIndex (removeFromConfusing s)
             = (if currentIndex s \<ge> int (length (confusingWords (removeFromConfusing s)))
                then (if confusingWords (removeFromConfusing s) = [] then 0
                      else int (length (confusingWords (removeFromConfusing s))) - 1)
                else currentIndex s)
         \<and> (confusingWords (removeFromConfusing s) \<noteq> [] \<longrightarrow>
              0 \<le> currentIndex (removeFromConfusing s)
              \<and> currentIndex (removeFromConfusing s)
                  < int (length (confusingWords (removeFromConfusing s))))
         \<and> (length (confusingWords s) = 3 \<and> currentIndex s = 2 \<longrightarrow>
              currentIndex (removeFromConfusing s) = 1)"
proof -
  let ?k = "currentIndex s"
  let ?u = "take (nat ?k) (confusingWords s) @ drop (Suc (nat ?k)) (confusingWords s)"
  from assms have u: "map snd (filter (\<lambda>(i, w). int i \<noteq> ?k) (enumerate 0 (confusingWords s))) = ?u"
    by (simp only: removed_at)
  from assms have l: "int (length ?u) = max 1 (int (length (confusingWords s))) - 1"
    by auto
  have c: "confusingWords (removeFromConfusing s) = ?u"
    by (simp add: removeFromConfusing_def Let_def u)
  have st: "storedConfusing (removeFromConfusing s) = Some (JSON_stringify_array ?u)"
    by (simp add: removeFromConfusing_def Let_def u)
  have i: "currentIndex (removeFromConfusing s)
      = (if ?k \<ge> int (length ?u) \<and> length ?u \<noteq> 0 then int (length ?u) - 1 else ?k)"
    by (simp add: removeFromConfusing_def Let_def u)
  from assms l i have i': "currentIndex (removeFromConfusing s)
      = (if ?k \<ge> int (length ?u) then (if ?u = [] then 0 else int (length ?u) - 1) else ?k)"
    by (cases "?u = []") auto
  from assms l i have r: "?u \<noteq> [] \<longrightarrow> 0 \<le> currentIndex (removeFromConfusing s)
      \<and> currentIndex (removeFromConfusing s) < int (length ?u)"
    by (cases "?u = []") auto
  from l i have e: "length (confusingWords s) = 3 \<and> ?k = 2 \<longrightarrow>
      currentIndex (removeFromConfusing s) = 1"
    by auto
  from l have l': "length ?u = length (confusingWords s) - 1" by linarith
  show ?thesis
    unfolding c using st i' r e l' by blast
qed

theorem removeFromConfusing_reclamp_witness:
  "(0::int) \<le> currentIndex app3
   \<and> currentIndex app3 < max 1 (int (length (confusingWords app3)))
   \<and> confusingWords (removeFromConfusing app3) = [w1, w2]
   \<and> currentIndex (removeFromConfusing app3) = 1
   \<and> (0::int) \<le> currentIndex app4
   \<and> currentIndex app4 < max 1 (int (length (confusingWords app4)))
   \<and> confusingWords (removeFromConfusing app4) = []
   \<and> currentIndex (removeFromConfusing app4) = 0
   \<and> (0::int) \<le> currentIndex app5
   \<and> currentIndex app5 < max 1 (int (length (confusingWords app5)))
   \<and> confusingWords (removeFromConfusing app5) = []
   \<and> currentIndex (removeFromConfusing app5) = 0"
proof -
  have a: "0 \<le> currentIndex app3"
    and b: "currentIndex app3 < max 1 (int (length (confusingWords app3)))"
    by (simp_all add: app3_def)
  have c: "confusingWords app3 = [w1, w2, w3]" "currentIndex app3 = 2"
    by (simp_all add: app3_def)
  have a': "0 \<le> currentIndex app4"
    and b': "currentIndex app4 < max 1 (int (length (confusingWords app4)))"
    by (simp_all add: app4_def app1_eq)
  have c': "confusingWords app4 = [w2]" "currentIndex app4 = 0"
    by (simp_all add: app4_def app1_eq)
  have a'': "0 \<le> currentIndex app5"
    and b'': "currentIndex app5 < max 1 (int (length (confusingWords app5)))"
    by (simp_all add: app5_def app1_eq)
  have c'': "confusingWords app5 = []" "currentIndex app5 = 0"
    by (simp_all add: app5_def app1_eq)
  from removeFromConfusing_reclamp [OF a b] removeFromConfusing_reclamp [OF a' b']
    removeFromConfusing_reclamp [OF a'' b''] a b c a' b' c' a'' b'' c''
  show ?thesis by simp
qed

section \<open>Shuffle cache\<close>

lemma handle_memo:
  "memo (handle e s) = memo s \<and> randomPos (handle e s) = randomPos s
   \<and> randomSeq (handle e s) = randomSeq s"
  by (cases e)
     (simp_all add: flipCard_def prevWord_app_def nextWord_app_def addToConfusing_def
        removeFromConfusing_def changeDay_def toggleConfusingMode_def toggleAnswer_def
        toggleAllAnswers_def toggleViewMode_def toggleDirection_def loadComplete_def Let_def
        split: option.split)

lemma rendered_daySlices:
  assumes "rendered s"
  shows "daySlices s = (snd (the (memo s)), s)"
  using assms by (auto simp: rendered_def daySlices_def split: option.splits)

lemma rendered_render: "rendered s \<Longrightarrow> render s = s"
  by (simp add: render_def rendered_daySlices)

lemma computeDaySlices_frame:
  "memo (snd (computeDaySlices s)) = Some ((wordsRef s, currentDay s), fst (computeDaySlices s))
   \<and> wordsRef (snd (computeDaySlices s)) = wordsRef s
   \<and> currentDay (snd (computeDaySlices s)) = currentDay s"
  by (simp add: computeDaySlices_def Let_def split: prod.split)

lemma rendered_after_render: "rendered (render s)"
proof (cases "rendered s")
  case True
  then show ?thesis by (simp add: rendered_render)
next
  case False
  then have "daySlices s = computeDaySlices s"
    by (auto simp: rendered_def daySlices_def split: option.splits)
  then show ?thesis
    by (simp add: render_def rendered_def computeDaySlices_frame)
qed

lemma daySlices_render: "fst (daySlices (render s)) = fst (daySlices s)"
proof (cases "rendered s")
  case True
  then show ?thesis by (simp add: rendered_render)
next
  case False
  then have d: "daySlices s = computeDaySlices s"
    by (auto simp: rendered_def daySlices_def split: option.splits)
  have "rendered (render s)" by (rule rendered_after_render)
  then have "fst (daySlices (render s)) = snd (the (memo (render s)))"
    by (simp add: rendered_daySlices)
  also have "\<dots> = fst (computeDaySlices s)"
    by (simp add: render_def d computeDaySlices_frame)
  finally show ?thesis by (simp add: d)
qed

lemma dispatch_same_deps:
  assumes "rendered s"
    and "currentDay (handle e s) = currentDay s" and "wordsRef (handle e s) = wordsRef s"
  shows "rendered (dispatch e s)" and "memo (dispatch e s) = memo s"
    and "randomPos (dispatch e s) = randomPos s" and "dispatch e s = handle e s"
proof -
  from assms have h: "rendered (handle e s)"
    by (auto simp: rendered_def handle_memo split: option.splits)
  then show d: "dispatch e s = handle e s"
    by (simp add: dispatch_def rendered_render)
  from h d show "rendered (dispatch e s)" by simp
  from d show "memo (dispatch e s) = memo s" by (simp add: handle_memo)
  from d show "randomPos (dispatch e s) = randomPos s" by (simp add: handle_memo)
qed

lemma toggles_keep:
  assumes "rendered s" and "\<forall>e\<in>set evs. e = ToggleViewMode \<or> e = ToggleDirection"
  shows "rendered (fold dispatch evs s) \<and> memo (fold dispatch evs s) = memo s
         \<and> randomPos (fold dispatch evs s) = randomPos s
         \<and> currentDay (fold dispatch evs s) = currentDay s
         \<and> words (fold dispatch evs s) = words s
         \<and> showConfusing (fold dispatch evs s) = showConfusing s"
  using assms
proof (induction evs arbitrary: s)
  case Nil
  then show ?case by simp
next
  case (Cons e evs)
  from Cons.prems have e: "e = ToggleViewMode \<or> e = ToggleDirection" by simp
  then have h: "currentDay (handle e s) = currentDay s" "wordsRef (handle e s) = wordsRef s"
    "words (handle e s) = words s" "showConfusing (handle e s) = showConfusing s"
    by (auto simp: toggleViewMode_def toggleDirection_def)
  note d = dispatch_same_deps [OF Cons.prems(1) h(1) h(2)]
  from Cons.prems have "\<forall>e\<in>set evs. e = ToggleViewMode \<or> e = ToggleDirection" by simp
  from Cons.IH [OF d(1) this] d h show ?case by simp
qed

text \<open>
  C1. For a fixed corpus and a fixed \<open>currentDay\<close>, after any sequence of
  \<open>toggleViewMode\<close> and \<open>toggleDirection\<close> events the cached day slices are the ones of
  the first render: the shuffled slice is the same sequence, the active word set in card
  view is that sequence, and no random number has been drawn. An event recomputes the
  cache only if its handler changes \<open>currentDay\<close> or replaces the corpus.
\<close>

theorem shuffle_cache_stable:
  assumes "\<forall>e\<in>set evs. e = ToggleViewMode \<or> e = ToggleDirection"
  shows "fst (daySlices (fold dispatch evs (render s))) = fst (daySlices s)
         \<and> memo (fold dispatch evs (render s)) = memo (render s)
         \<and> randomPos (fold dispatch evs (render s)) = randomPos (render s)
         \<and> (\<not> showConfusing s \<and> viewMode (fold dispatch evs (render s)) = Card \<longrightarrow>
              currentWords (fold dispatch evs (render s)) = shuffled (fst (daySlices s)))
         \<and> (\<forall>e. currentDay (handle e (render s)) = currentDay (render s)
                \<and> wordsRef (handle e (render s)) = wordsRef (render s) \<longrightarrow>
                memo (dispatch e (render s)) = memo (render s)
                \<and> randomPos (dispatch e (render s)) = randomPos (render s))"
proof -
  let ?r = "render s"
  let ?t = "fold dispatch evs ?r"
  have r: "rendered ?r" by (rule rendered_after_render)
  from toggles_keep [OF r assms]
  have k: "rendered ?t" "memo ?t = memo ?r" "randomPos ?t = randomPos ?r"
    "showConfusing ?t = showConfusing ?r"
    by simp_all
  from k(1) r k(2) have "fst (daySlices ?t) = fst (daySlices ?r)"
    by (simp add: rendered_daySlices)
  then have f: "fst (daySlices ?t) = fst (daySlices s)"
    by (simp add: daySlices_render)
  have sc: "showConfusing ?r = showConfusing s"
  proof (cases "rendered s")
    case True
    then show ?thesis by (simp add: rendered_render)
  next
    case False
    then have "daySlices s = computeDaySlices s"
      by (auto simp: rendered_def daySlices_def split: option.splits)
    then show ?thesis
      by (simp add: render_def computeDaySlices_def Let_def split: prod.split)
  qed
  from f k(4) sc have c: "\<not> showConfusing s \<and> viewMode ?t = Card \<longrightarrow>
      currentWords ?t = shuffled (fst (daySlices s))"
    by (simp add: currentWords_def)
  have o: "\<forall>e. currentDay (handle e ?r) = currentDay ?r \<and> wordsRef (handle e ?r) = wordsRef ?r
      \<longrightarrow> memo (dispatch e ?r) = memo ?r \<and> randomPos (dispatch e ?r) = randomPos ?r"
    using dispatch_same_deps(2,3) [OF r] by blast
  from f k(2) k(3) c o show ?thesis by blast
qed

theorem shuffle_cache_stable_witness:
  "currentWords app1 = [w1, w3, w2]
   \<and> currentWords (fold dispatch [ToggleViewMode, ToggleDirection, ToggleViewMode] app1)
       = [w1, w3, w2]
   \<and> currentWords (dispatch ToggleViewMode app1) = [w1, w2, w3]
   \<and> randomPos (fold dispatch [ToggleViewMode, ToggleDirection, ToggleViewMode] app1)
       = randomPos app1"
proof -
  let ?evs = "[ToggleViewMode, ToggleDirection, ToggleViewMode]"
  have a: "\<forall>e\<in>set ?evs. e = ToggleViewMode \<or> e = ToggleDirection" by simp
  have r: "render app1 = app1"
    by (simp add: app1_eq render_def daySlices_def)
  have v: "viewMode (fold dispatch ?evs app1) = Card"
    by (simp add: app1_eq dispatch_def render_def daySlices_def toggleViewMode_def
        toggleDirection_def)
  have s: "\<not> showConfusing app1" by (simp add: app1_eq)
  have d: "shuffled (fst (daySlices app1)) = [w1, w3, w2]"
    by (simp add: app1_eq daySlices_def)
  have l: "currentWords (dispatch ToggleViewMode app1) = [w1, w2, w3]"
    by (simp add: app1_eq dispatch_def render_def daySlices_def toggleViewMode_def
        currentWords_def)
  from shuffle_cache_stable [OF a, of app1] r v s d l currentWords_app1
  show ?thesis by simp
qed

section \<open>Fisher-Yates shuffle\<close>

lemma floor_choice_bound:
  assumes "0 \<le> r" "r < 1"
  shows "nat \<lfloor>r * real (Suc i)\<rfloor> \<le> i"
proof -
  from assms have "r * real (Suc i) < real (Suc i)" by simp
  then have "\<lfloor>r * real (Suc i)\<rfloor> < int (Suc i)" by (simp add: floor_less_iff)
  then show ?thesis by linarith
qed

lemma all_choices_Suc:
  "js \<in> set (all_choices (Suc i))
     \<longleftrightarrow> (\<exists>j js'. js = j # js' \<and> j \<le> Suc i \<and> js' \<in> set (all_choices i))"
proof -
  have "set (all_choices (Suc i)) = (\<Union>j\<in>{0..<Suc (Suc i)}. (#) j ` set (all_choices i))"
    by (simp del: upt_Suc)
  then show ?thesis by (auto simp: less_Suc_eq_le)
qed

lemma chosen_valid:
  assumes "\<forall>k. 0 \<le> rnd k \<and> rnd k < 1"
  shows "chosen rnd pos i \<in> set (all_choices i)"
proof (induction i arbitrary: pos)
  case 0
  show ?case by simp
next
  case (Suc i)
  from assms have "nat \<lfloor>rnd pos * real (Suc (Suc i))\<rfloor> \<le> Suc i"
    by (simp only: floor_choice_bound)
  with Suc show ?case
    by (simp only: all_choices_Suc chosen.simps) simp
qed

lemma shuffle_loop_by:
  "shuffle_loop rnd pos i a = (shuffle_by (chosen rnd pos i) i a, pos + i)"
  by (induction i arbitrary: pos a) (simp_all add: Let_def)

lemma length_shuffle_by: "length (shuffle_by js i a) = length a"
  by (induction js i a rule: shuffle_by.induct) (simp_all add: Let_def)

lemma mset_shuffle_by:
  "js \<in> set (all_choices i) \<Longrightarrow> i < length a \<Longrightarrow> mset (shuffle_by js i a) = mset a"
proof (induction i arbitrary: js a)
  case 0
  then show ?case by simp
next
  case (Suc i)
  from Suc.prems(1) obtain j js' where js: "js = j # js'" "j \<le> Suc i" "js' \<in> set (all_choices i)"
    by (auto simp only: all_choices_Suc)
  let ?a = "a[Suc i := a ! j, j := a ! Suc i]"
  from Suc.prems(2) js(2) have "mset ?a = mset a"
    by (simp add: mset_swap)
  moreover from Suc.prems(2) have "i < length ?a" by simp
  with js(3) have "mset (shuffle_by js' i ?a) = mset ?a" by (rule Suc.IH)
  ultimately show ?case by (simp add: js(1) Let_def)
qed

lemma shuffle_by_above:
  "js \<in> set (all_choices i) \<Longrightarrow> i < p \<Longrightarrow> shuffle_by js i a ! p = a ! p"
proof (induction i arbitrary: js a)
  case 0
  then show ?case by simp
next
  case (Suc i)
  from Suc.prems(1) obtain j js' where js: "js = j # js'" "j \<le> Suc i" "js' \<in> set (all_choices i)"
    by (auto simp only: all_choices_Suc)
  let ?a = "a[Suc i := a ! j, j := a ! Suc i]"
  from Suc.prems(2) js(3) have "shuffle_by js' i ?a ! p = ?a ! p"
    by (intro Suc.IH) simp_all
  with Suc.prems(2) js(2) show ?case by (simp add: js(1) Let_def)
qed

lemma shuffle_by_fold:
  "length js = i \<Longrightarrow>
   shuffle_by js i a = fold (\<lambda>(i, j) a. a[i := a ! j, j := a ! i]) (zip (rev [1..<Suc i]) js) a"
proof (induction js i a rule: shuffle_by.induct)
  case (1 js a)
  then show ?case by simp
next
  case (2 i' a)
  then show ?case by simp
next
  case (3 j js i' a)
  then show ?case by (simp add: Let_def)
qed

lemma draw_interval:
  assumes "j \<le> i"
  shows "{r. 0 \<le> r \<and> r < 1 \<and> nat \<lfloor>r * real (i + 1)\<rfloor> = j}
         = {real j / real (i + 1) ..< real (j + 1) / real (i + 1)}"
proof -
  have pos: "0 < real (i + 1)" by simp
  have h: "(0 \<le> r \<and> r < 1 \<and> nat \<lfloor>r * real (i + 1)\<rfloor> = j)
      = (real j / real (i + 1) \<le> r \<and> r < real (j + 1) / real (i + 1))" for r
  proof
    assume a: "0 \<le> r \<and> r < 1 \<and> nat \<lfloor>r * real (i + 1)\<rfloor> = j"
    then have "0 \<le> r * real (i + 1)" by simp
    then have "0 \<le> \<lfloor>r * real (i + 1)\<rfloor>" by simp
    with a have f: "\<lfloor>r * real (i + 1)\<rfloor> = int j" by linarith
    then have "real j \<le> r * real (i + 1)" "r * real (i + 1) < real (j + 1)"
      by linarith+
    with pos show "real j / real (i + 1) \<le> r \<and> r < real (j + 1) / real (i + 1)"
      by (simp add: pos_divide_le_eq pos_less_divide_eq)
  next
    assume b: "real j / real (i + 1) \<le> r \<and> r < real (j + 1) / real (i + 1)"
    with pos have c: "real j \<le> r * real (i + 1)" "r * real (i + 1) < real (j + 1)"
      by (simp_all add: pos_divide_le_eq pos_less_divide_eq)
    then have "\<lfloor>r * real (i + 1)\<rfloor> = int j"
      by (intro floor_unique) simp_all
    then have n: "nat \<lfloor>r * real (i + 1)\<rfloor> = j" by simp
    have "0 \<le> real j / real (i + 1)" by simp
    with b have r0: "0 \<le> r" by linarith
    from assms have "real (j + 1) / real (i + 1) \<le> 1" by simp
    with b have "r < 1" by linarith
    with r0 n show "0 \<le> r \<and> r < 1 \<and> nat \<lfloor>r * real (i + 1)\<rfloor> = j" by simp
  qed
  show ?thesis
    by (rule set_eqI) (simp only: mem_Collect_eq atLeastLessThan_iff h)
qed

lemma shuffle_loop_store_eq:
  "a < length h \<Longrightarrow>
   shuffle_loop_store rnd pos i a h
     = (h[a := fst (shuffle_loop rnd pos i (h ! a))], snd (shuffle_loop rnd pos i (h ! a)))"
  by (induction i arbitrary: pos h) (simp_all add: Let_def)

lemma shuffleArray_store_eq:
  "shuffleArray_store rnd pos arr h
     = (length h, h @ [fst (shuffleArray rnd pos (h ! arr))], snd (shuffleArray rnd pos (h ! arr)))"
  by (simp add: shuffleArray_store_def shuffleArray_def Let_def shuffle_loop_store_eq)

lemma length_filter_concat:
  "length (filter P (concat (map f js))) = sum_list (map (\<lambda>j. length (filter P (f j))) js)"
  by (induction js) simp_all

lemma sum_list_const: "sum_list (map (\<lambda>j. c) js) = length js * (c::nat)"
  by (induction js) simp_all

lemma length_all_choices: "length (all_choices i) = fact (Suc i)"
proof (induction i)
  case 0
  show ?case by simp
next
  case (Suc i)
  have "length (all_choices (Suc i))
      = sum_list (map (\<lambda>j. length (all_choices i)) [0..<Suc (Suc i)])"
    by (simp del: upt_Suc add: length_concat o_def)
  also have "\<dots> = Suc (Suc i) * fact (Suc i)"
    by (simp only: sum_list_const Suc.IH length_upt) simp
  finally show ?case by simp
qed

lemma distinct_all_choices: "distinct (all_choices i)"
proof (induction i)
  case 0
  show ?case by simp
next
  case (Suc i)
  have "distinct (concat (map (\<lambda>j. map ((#) j) (all_choices i)) [0..<Suc (Suc i)]))"
  proof (rule distinct_concat)
    show "distinct (map (\<lambda>j. map ((#) j) (all_choices i)) [0..<Suc (Suc i)])"
    proof -
      have "all_choices i \<noteq> []" using length_all_choices [of i] by auto
      then obtain c cs where "all_choices i = c # cs" by (cases "all_choices i") auto
      then have "inj (\<lambda>j. map ((#) j) (all_choices i))"
        by (auto simp: inj_on_def)
      then have "inj_on (\<lambda>j. map ((#) j) (all_choices i)) (set [0..<Suc (Suc i)])"
        by (rule inj_on_subset) simp
      then show ?thesis by (simp only: distinct_map distinct_upt simp_thms)
    qed
    show "\<And>ys. ys \<in> set (map (\<lambda>j. map ((#) j) (all_choices i)) [0..<Suc (Suc i)]) \<Longrightarrow> distinct ys"
      using Suc by (auto simp: distinct_map)
    show "\<And>ys zs. ys \<in> set (map (\<lambda>j. map ((#) j) (all_choices i)) [0..<Suc (Suc i)]) \<Longrightarrow>
        zs \<in> set (map (\<lambda>j. map ((#) j) (all_choices i)) [0..<Suc (Suc i)]) \<Longrightarrow>
        ys \<noteq> zs \<Longrightarrow> set ys \<inter> set zs = {}"
      by auto
  qed
  then show ?case by simp
qed

lemma sum_list_other:
  "n \<le> j0 \<Longrightarrow> sum_list (map (\<lambda>j. if j = j0 then A else B) [0..<n]) = n * (B::nat)"
  by (induction n) simp_all

lemma sum_list_single:
  "j0 < n \<Longrightarrow> sum_list (map (\<lambda>j. if j = j0 then A else B) [0..<n]) = A + (n - 1) * (B::nat)"
proof (induction n)
  case 0
  then show ?case by simp
next
  case (Suc n)
  show ?case
  proof (cases "j0 = n")
    case True
    then show ?thesis by (simp add: sum_list_other)
  next
    case False
    with Suc.prems have "j0 < n" by simp
    with Suc.IH False show ?thesis by (cases n) simp_all
  qed
qed

lemma swap_last:
  assumes "Suc i < length a" "j \<le> Suc i"
  shows "a[Suc i := a ! j, j := a ! Suc i] ! Suc i = a ! j"
  using assms by (cases "j = Suc i") simp_all

lemma swap_prefix:
  assumes "Suc i < length a" "j \<le> Suc i"
  shows "mset (take (Suc i) (a[Suc i := a ! j, j := a ! Suc i])) + {#a ! j#}
         = mset (take (Suc (Suc i)) a)"
proof -
  let ?b = "a[Suc i := a ! j, j := a ! Suc i]"
  let ?ys = "take (Suc (Suc i)) a"
  from assms have "mset (take (Suc i) ?b) + {#?b ! Suc i#} = mset (take (Suc (Suc i)) ?b)"
    by (simp add: take_Suc_conv_app_nth)
  also from assms have "take (Suc (Suc i)) ?b = ?ys[Suc i := ?ys ! j, j := ?ys ! Suc i]"
    by (simp add: take_update_swap)
  also from assms have "mset (?ys[Suc i := ?ys ! j, j := ?ys ! Suc i]) = mset ?ys"
    by (intro mset_swap) simp_all
  finally have "mset (take (Suc i) ?b) + {#?b ! Suc i#} = mset ?ys" .
  with assms show ?thesis by (simp only: swap_last)
qed

lemma mset_prefix_shuffle_by:
  "js \<in> set (all_choices i) \<Longrightarrow> i < length a \<Longrightarrow>
   mset (take (Suc i) (shuffle_by js i a)) = mset (take (Suc i) a)"
proof (induction i arbitrary: js a)
  case 0
  then show ?case by simp
next
  case (Suc i)
  from Suc.prems(1) obtain j js' where js: "js = j # js'" "j \<le> Suc i" "js' \<in> set (all_choices i)"
    by (auto simp only: all_choices_Suc)
  let ?b = "a[Suc i := a ! j, j := a ! Suc i]"
  let ?r = "shuffle_by js' i ?b"
  from Suc.prems(2) have l: "i < length ?b" "Suc i < length ?r"
    by (simp_all add: length_shuffle_by)
  from js(3) l(1) have "mset (take (Suc i) ?r) = mset (take (Suc i) ?b)" by (rule Suc.IH)
  moreover from js(3) have "?r ! Suc i = ?b ! Suc i" by (intro shuffle_by_above) simp_all
  moreover from l(2) have "take (Suc (Suc i)) ?r = take (Suc i) ?r @ [?r ! Suc i]"
    by (simp add: take_Suc_conv_app_nth)
  ultimately have "mset (take (Suc (Suc i)) ?r) = mset (take (Suc i) ?b) + {#?b ! Suc i#}"
    by simp
  also from Suc.prems(2) js(2) have "\<dots> = mset (take (Suc (Suc i)) a)"
    by (simp only: swap_last swap_prefix)
  finally show ?case by (simp add: js(1) Let_def)
qed

lemma count_position:
  "i < length a \<Longrightarrow> distinct (take (Suc i) a) \<Longrightarrow> x \<in> set (take (Suc i) a) \<Longrightarrow> p \<le> i \<Longrightarrow>
   length (filter (\<lambda>js. shuffle_by js i a ! p = x) (all_choices i)) = fact i"
proof (induction i arbitrary: a p)
  case 0
  then have "take (Suc 0) a = [a ! 0]"
    by (simp add: take_Suc_conv_app_nth)
  with 0 show ?case by simp
next
  case (Suc i)
  let ?n = "Suc (Suc i)"
  let ?ys = "take ?n a"
  let ?swap = "\<lambda>j. a[Suc i := a ! j, j := a ! Suc i]"
  let ?count = "\<lambda>j. length (filter (\<lambda>js. shuffle_by js i (?swap j) ! p = x) (all_choices i))"
  from Suc.prems(3) obtain j0 where j0: "j0 < ?n" "a ! j0 = x"
    by (auto simp: in_set_conv_nth)
  have uniq: "(a ! j = x) = (j = j0)" if "j < ?n" for j
  proof -
    from Suc.prems(1) that j0 have "(?ys ! j = ?ys ! j0) = (j = j0)"
      by (intro nth_eq_iff_index_eq Suc.prems(2)) simp_all
    with that j0 show ?thesis by simp
  qed
  have expand: "length (filter (\<lambda>js. shuffle_by js (Suc i) a ! p = x) (all_choices (Suc i)))
      = sum_list (map ?count [0..<?n])"
    by (simp del: upt_Suc add: length_filter_concat filter_map o_def Let_def)
  have prefix: "distinct (take (Suc i) (?swap j))
      \<and> (x \<in> set (take (Suc i) (?swap j))) = (j \<noteq> j0)" if "j < ?n" for j
  proof -
    from that have le: "j \<le> Suc i" by simp
    from swap_prefix [OF Suc.prems(1) le]
    have m: "mset (take (Suc i) (?swap j) @ [a ! j]) = mset ?ys" by simp
    from Suc.prems(2) have "distinct (take (Suc i) (?swap j) @ [a ! j])"
      by (simp only: mset_eq_imp_distinct_iff [OF m])
    then have d: "distinct (take (Suc i) (?swap j))" "a ! j \<notin> set (take (Suc i) (?swap j))"
      by simp_all
    from m have "set (take (Suc i) (?swap j) @ [a ! j]) = set ?ys"
      by (rule mset_eq_setD)
    with Suc.prems(3) have "x \<in> set (take (Suc i) (?swap j)) \<or> x = a ! j" by auto
    with d(2) uniq [OF that] have "(x \<in> set (take (Suc i) (?swap j))) = (j \<noteq> j0)"
      by auto
    with d(1) show ?thesis by simp
  qed
  show ?case
  proof (cases "p = Suc i")
    case True
    have cnt: "?count j = (if j = j0 then fact (Suc i) else 0)" if "j < ?n" for j
    proof -
      from that have le: "j \<le> Suc i" by simp
      have "filter (\<lambda>js. shuffle_by js i (?swap j) ! p = x) (all_choices i)
          = filter (\<lambda>js. a ! j = x) (all_choices i)"
      proof (rule filter_cong [OF refl])
        fix js assume "js \<in> set (all_choices i)"
        then have "shuffle_by js i (?swap j) ! Suc i = ?swap j ! Suc i"
          by (intro shuffle_by_above) simp_all
        with True swap_last [OF Suc.prems(1) le]
        show "(shuffle_by js i (?swap j) ! p = x) = (a ! j = x)" by simp
      qed
      with uniq [OF that] show ?thesis by (simp add: length_all_choices)
    qed
    have "map ?count [0..<?n] = map (\<lambda>j. if j = j0 then fact (Suc i) else 0) [0..<?n]"
    proof (rule map_cong [OF refl])
      fix j assume "j \<in> set [0..<?n]"
      then have "j < ?n" by (simp only: set_upt atLeastLessThan_iff)
      then show "?count j = (if j = j0 then fact (Suc i) else 0)" by (rule cnt)
    qed
    with expand j0(1) show ?thesis by (simp add: sum_list_single del: upt_Suc)
  next
    case False
    with Suc.prems(4) have p: "p \<le> i" by simp
    have cnt: "?count j = (if j = j0 then 0 else fact i)" if "j < ?n" for j
    proof (cases "j = j0")
      case True
      have "filter (\<lambda>js. shuffle_by js i (?swap j) ! p = x) (all_choices i) = []"
      proof -
        have "shuffle_by js i (?swap j) ! p \<noteq> x" if js: "js \<in> set (all_choices i)" for js
        proof -
          from Suc.prems(1) have l: "i < length (?swap j)" by simp
          from mset_prefix_shuffle_by [OF js l]
          have "set (take (Suc i) (shuffle_by js i (?swap j))) = set (take (Suc i) (?swap j))"
            by (rule mset_eq_setD)
          moreover from p l have "shuffle_by js i (?swap j) ! p
              \<in> set (take (Suc i) (shuffle_by js i (?swap j)))"
            by (simp add: in_set_conv_nth length_shuffle_by) (metis le_imp_less_Suc nth_take)
          ultimately show ?thesis using prefix [OF \<open>j < ?n\<close>] True by auto
        qed
        then show ?thesis by (simp add: filter_empty_conv)
      qed
      with True show ?thesis by simp
    next
      case False
      from Suc.prems(1) have l: "i < length (?swap j)" by simp
      from prefix [OF that] False
      have "distinct (take (Suc i) (?swap j))" "x \<in> set (take (Suc i) (?swap j))"
        by simp_all
      from Suc.IH [OF l this p] False show ?thesis by simp
    qed
    have "map ?count [0..<?n] = map (\<lambda>j. if j = j0 then 0 else fact i) [0..<?n]"
    proof (rule map_cong [OF refl])
      fix j assume "j \<in> set [0..<?n]"
      then have "j < ?n" by (simp only: set_upt atLeastLessThan_iff)
      then show "?count j = (if j = j0 then 0 else fact i)" by (rule cnt)
    qed
    with expand j0(1) show ?thesis by (simp add: sum_list_single del: upt_Suc)
  qed
qed

lemma shuffle_by_map:
  "js \<in> set (all_choices i) \<Longrightarrow> i < length b \<Longrightarrow>
   shuffle_by js i (map f b) = map f (shuffle_by js i b)"
proof (induction i arbitrary: js b)
  case 0
  then show ?case by simp
next
  case (Suc i)
  from Suc.prems(1) obtain j js' where js: "js = j # js'" "j \<le> Suc i" "js' \<in> set (all_choices i)"
    by (auto simp only: all_choices_Suc)
  let ?b = "b[Suc i := b ! j, j := b ! Suc i]"
  from Suc.prems(2) js(2)
  have "(map f b)[Suc i := map f b ! j, j := map f b ! Suc i] = map f ?b"
    by (simp add: map_update)
  moreover from Suc.prems(2) have "i < length ?b" by simp
  with js(3) have "shuffle_by js' i (map f ?b) = map f (shuffle_by js' i ?b)" by (rule Suc.IH)
  ultimately show ?case by (simp add: js(1) Let_def)
qed

text \<open>
  C9. When every draw of the random source lies in \<open>[0, 1)\<close>, \<open>shuffleArray\<close> is one
  pass of swaps at the indices \<open>n - 1, n - 2, \<dots>, 1\<close>, each with an index not above it,
  using one draw per swap; its result has the same elements with the same multiplicities
  and the same length as its argument; in the store it returns a fresh array and leaves
  the argument array, and every other array, as it was. The result places the elements
  by the positions the chosen indices give; of the \<open>n!\<close> index sequences the loop can
  be driven by, exactly \<open>(n - 1)!\<close> bring the element of any given position to any
  given position, and each index \<open>j \<le> i\<close> is chosen by the draws of an interval of
  length \<open>1 / (i + 1)\<close>: with uniform draws every element is equally likely to land at
  every position.
\<close>

theorem shuffleArray_permutation:
  assumes "\<forall>k. 0 \<le> rnd k \<and> rnd k < 1"
  shows "shuffleArray rnd pos arr
           = (fold (\<lambda>(i, j) a. a[i := a ! j, j := a ! i])
                (zip (rev [1..<length arr]) (chosen rnd pos (length arr - 1))) arr,
              pos + (length arr - 1))
         \<and> chosen rnd pos (length arr - 1) \<in> set (all_choices (length arr - 1))
         \<and> mset (fst (shuffleArray rnd pos arr)) = mset arr
         \<and> length (fst (shuffleArray rnd pos arr)) = length arr
         \<and> (addr < length h \<longrightarrow>
              shuffleArray_store rnd pos addr h
                = (length h, h @ [fst (shuffleArray rnd pos (h ! addr))],
                   snd (shuffleArray rnd pos (h ! addr)))
              \<and> fst (snd (shuffleArray_store rnd pos addr h)) ! addr = h ! addr
              \<and> take (length h) (fst (snd (shuffleArray_store rnd pos addr h))) = h
              \<and> fst (shuffleArray_store rnd pos addr h) \<noteq> addr)
         \<and> fst (shuffleArray rnd pos arr)
             = map ((!) arr)
                 (shuffle_by (chosen rnd pos (length arr - 1)) (length arr - 1) [0..<length arr])
         \<and> (p < length arr \<and> q < length arr \<longrightarrow>
              length (filter (\<lambda>js. shuffle_by js (length arr - 1) [0..<length arr] ! p = q)
                        (all_choices (length arr - 1))) = fact (length arr - 1)
              \<and> length (all_choices (length arr - 1)) = fact (length arr)
              \<and> distinct (all_choices (length arr - 1)))
         \<and> (\<forall>i j. j \<le> i \<longrightarrow>
              {r. 0 \<le> r \<and> r < 1 \<and> nat \<lfloor>r * real (i + 1)\<rfloor> = j}
                = {real j / real (i + 1) ..< real (j + 1) / real (i + 1)})"
proof -
  let ?n = "length arr"
  let ?js = "chosen rnd pos (?n - 1)"
  have len: "length (chosen r k i) = i" for r k i
    by (induction i arbitrary: k) simp_all
  have v: "?js \<in> set (all_choices (?n - 1))"
    using assms by (rule chosen_valid)
  have by_eq: "shuffleArray rnd pos arr = (shuffle_by ?js (?n - 1) arr, pos + (?n - 1))"
    by (simp add: shuffleArray_def shuffle_loop_by)
  have up: "[1..<Suc (?n - 1)] = [1..<?n]" by (cases arr) simp_all
  have c1: "shuffleArray rnd pos arr
      = (fold (\<lambda>(i, j) a. a[i := a ! j, j := a ! i]) (zip (rev [1..<?n]) ?js) arr, pos + (?n - 1))"
    using shuffle_by_fold [OF len, of rnd pos "?n - 1" arr] by (simp only: by_eq up)
  have c3: "mset (fst (shuffleArray rnd pos arr)) = mset arr"
  proof (cases arr)
    case Nil
    then show ?thesis by (simp add: shuffleArray_def)
  next
    case (Cons y ys)
    then have "?n - 1 < ?n" by simp
    with v show ?thesis by (simp only: by_eq fst_conv mset_shuffle_by)
  qed
  have c4: "length (fst (shuffleArray rnd pos arr)) = ?n"
    by (simp add: by_eq length_shuffle_by)
  have c5: "addr < length h \<longrightarrow>
      shuffleArray_store rnd pos addr h
        = (length h, h @ [fst (shuffleArray rnd pos (h ! addr))],
           snd (shuffleArray rnd pos (h ! addr)))
      \<and> fst (snd (shuffleArray_store rnd pos addr h)) ! addr = h ! addr
      \<and> take (length h) (fst (snd (shuffleArray_store rnd pos addr h))) = h
      \<and> fst (shuffleArray_store rnd pos addr h) \<noteq> addr"
    by (simp add: shuffleArray_store_eq nth_append)
  have c6: "fst (shuffleArray rnd pos arr) = map ((!) arr) (shuffle_by ?js (?n - 1) [0..<?n])"
  proof (cases arr)
    case Nil
    then show ?thesis by (simp add: shuffleArray_def)
  next
    case (Cons y ys)
    then have "?n - 1 < length [0..<?n]" by simp
    with v have "shuffle_by ?js (?n - 1) (map ((!) arr) [0..<?n])
        = map ((!) arr) (shuffle_by ?js (?n - 1) [0..<?n])"
      by (rule shuffle_by_map)
    then show ?thesis by (simp only: by_eq fst_conv map_nth)
  qed
  have c7: "p < ?n \<and> q < ?n \<longrightarrow>
      length (filter (\<lambda>js. shuffle_by js (?n - 1) [0..<?n] ! p = q) (all_choices (?n - 1)))
        = fact (?n - 1)
      \<and> length (all_choices (?n - 1)) = fact ?n
      \<and> distinct (all_choices (?n - 1))"
  proof
    assume pq: "p < ?n \<and> q < ?n"
    then have s: "Suc (?n - 1) = ?n" by linarith
    from pq have l: "?n - 1 < length [0..<?n]" and p: "p \<le> ?n - 1"
      by (simp, linarith)+
    have d: "distinct (take (Suc (?n - 1)) [0..<?n])"
      by simp
    from pq have m: "q \<in> set (take (Suc (?n - 1)) [0..<?n])"
      by (simp only: s take_all length_upt diff_zero order_refl set_upt atLeastLessThan_iff
            le0 simp_thms)
    from l d m p
    have "length (filter (\<lambda>js. shuffle_by js (?n - 1) [0..<?n] ! p = q)
        (all_choices (?n - 1))) = fact (?n - 1)"
      by (rule count_position)
    moreover have "length (all_choices (?n - 1)) = fact ?n"
      by (simp only: length_all_choices s)
    ultimately show "length (filter (\<lambda>js. shuffle_by js (?n - 1) [0..<?n] ! p = q)
        (all_choices (?n - 1))) = fact (?n - 1)
      \<and> length (all_choices (?n - 1)) = fact ?n \<and> distinct (all_choices (?n - 1))"
      by (simp only: distinct_all_choices simp_thms)
  qed
  have c8: "\<forall>i j. j \<le> i \<longrightarrow>
      {r. 0 \<le> r \<and> r < 1 \<and> nat \<lfloor>r * real (i + 1)\<rfloor> = j}
        = {real j / real (i + 1) ..< real (j + 1) / real (i + 1)}"
    by (intro allI impI draw_interval)
  from c1 v c3 c4 c5 c6 c7 c8 show ?thesis by (intro conjI)
qed

theorem shuffleArray_permutation_witness:
  "(\<forall>k::nat. (0::real) \<le> 1 / 2 \<and> (1::real) / 2 < 1)
   \<and> shuffleArray (\<lambda>k. 1 / 2) 0 [w1, w2, w3] = ([w1, w3, w2], 2)
   \<and> mset [w1, w3, w2] = mset [w1, w2, w3]
   \<and> shuffleArray_store (\<lambda>k. 1 / 2) 0 0 [[w1, w2, w3]]
       = (1, [[w1, w2, w3], [w1, w3, w2]], 2)
   \<and> length (filter (\<lambda>js. shuffle_by js 2 [0, 1, 2 :: nat] ! 0 = 1) (all_choices 2)) = 2
   \<and> length (all_choices 2) = 6
   \<and> {r. 0 \<le> r \<and> r < 1 \<and> nat \<lfloor>r * 3\<rfloor> = 1} = {1 / 3 ..< 2 / 3 :: real}"
proof -
  let ?rnd = "\<lambda>k::nat. 1 / 2 :: real"
  let ?arr = "[w1, w2, w3]"
  have a: "\<forall>k. 0 \<le> ?rnd k \<and> ?rnd k < 1" by simp
  note T = shuffleArray_permutation [OF a, of 0 ?arr 0 "[?arr]" 0 1]
  have c: "chosen ?rnd 0 2 = [1, 1]"
    by (simp add: eval_nat_numeral)
  have u: "[0..<3] = [0, 1, 2]" "[1..<3] = [1, 2]"
    by (simp_all add: eval_nat_numeral)
  have f: "fact 2 = (2::nat)" "fact 3 = (6::nat)"
    by (simp_all add: eval_nat_numeral)
  have la: "length ?arr = 3" "length ?arr - 1 = 2"
    by simp_all
  from T have "shuffleArray ?rnd 0 ?arr
      = (fold (\<lambda>(i, j) a. a[i := a ! j, j := a ! i])
           (zip (rev [1..<length ?arr]) (chosen ?rnd 0 (length ?arr - 1))) ?arr,
         0 + (length ?arr - 1))"
    by (rule conjunct1)
  then have s: "shuffleArray ?rnd 0 ?arr = ([w1, w3, w2], 2)"
    by (simp add: c u)
  from T have "mset (fst (shuffleArray ?rnd 0 ?arr)) = mset ?arr" by blast
  then have m: "mset [w1, w3, w2] = mset ?arr" by (simp only: s fst_conv)
  from T have "0 < length [?arr] \<longrightarrow> shuffleArray_store ?rnd 0 0 [?arr]
      = (length [?arr], [?arr] @ [fst (shuffleArray ?rnd 0 ([?arr] ! 0))],
         snd (shuffleArray ?rnd 0 ([?arr] ! 0)))"
    by blast
  then have h: "shuffleArray_store ?rnd 0 0 [?arr] = (1, [?arr, [w1, w3, w2]], 2)"
    by (simp add: s)
  from T have "0 < length ?arr \<and> 1 < length ?arr \<longrightarrow>
      length (filter (\<lambda>js. shuffle_by js (length ?arr - 1) [0..<length ?arr] ! 0 = 1)
                (all_choices (length ?arr - 1))) = fact (length ?arr - 1)
      \<and> length (all_choices (length ?arr - 1)) = fact (length ?arr)"
    by blast
  then have n: "length (filter (\<lambda>js. shuffle_by js 2 [0, 1, 2 :: nat] ! 0 = 1) (all_choices 2)) = 2
      \<and> length (all_choices 2) = 6"
    unfolding la u f by simp
  from T have "\<forall>i j. j \<le> i \<longrightarrow>
      {r. 0 \<le> r \<and> r < 1 \<and> nat \<lfloor>r * real (i + 1)\<rfloor> = j}
        = {real j / real (i + 1) ..< real (j + 1) / real (i + 1)}"
    by blast
  then have "(1::nat) \<le> 2 \<longrightarrow>
      {r. 0 \<le> r \<and> r < 1 \<and> nat \<lfloor>r * real (2 + 1)\<rfloor> = 1}
        = {real 1 / real (2 + 1) ..< real (1 + 1) / real (2 + 1)}"
    by blast
  then have i: "{r. 0 \<le> r \<and> r < 1 \<and> nat \<lfloor>r * 3\<rfloor> = 1} = {1 / 3 ..< 2 / 3 :: real}"
    by simp
  from s m h n i show ?thesis by simp
qed

section \<open>Confusing-set store: adding\<close>

text \<open>The serialisation is injective: every character is decoded in one way only.\<close>

lemma json_quote_control_chars: "json_quote [CHR 0x1F, CHR 0x0A, CHR ''a'']
   = [CHR 0x22, CHR 0x5C, CHR ''u'', CHR ''0'', CHR ''0'', CHR ''1'', CHR ''f'', CHR 0x5C, CHR ''n'', CHR ''a'', CHR 0x22]"
  by (simp add: json_quote_def json_escape_def hex_digit_def)

lemma hex_digit_inj:
  assumes "d < 16" "d' < 16" "hex_digit d = hex_digit d'"
  shows "d = d'"
proof -
  have "distinct ''0123456789abcdef''" by simp
  moreover from assms have "d < length ''0123456789abcdef''" "d' < length ''0123456789abcdef''"
    by simp_all
  ultimately have "(''0123456789abcdef'' ! d = ''0123456789abcdef'' ! d') = (d = d')"
    by (rule nth_eq_iff_index_eq)
  with assms(3) show ?thesis by (simp add: hex_digit_def)
qed

lemma json_escape_head:
  "\<exists>e es. json_escape c = e # es \<and> e \<noteq> CHR 0x22"
  by (simp add: json_escape_def)

lemma json_escape_inj:
  assumes "json_escape c @ t = json_escape c' @ t'"
  shows "c = c' \<and> t = t'"
proof -
  have ctl: "c = c'"
    if "(of_char c :: nat) < 32" "(of_char c' :: nat) < 32"
      "hex_digit (of_char c div 16) = hex_digit (of_char c' div 16)"
      "hex_digit (of_char c mod 16) = hex_digit (of_char c' mod 16)" for c c' :: char
  proof -
    from that(1,2) have "(of_char c :: nat) div 16 < 16" "(of_char c' :: nat) div 16 < 16"
      by simp_all
    with that(3) have "(of_char c :: nat) div 16 = of_char c' div 16"
      by (intro hex_digit_inj)
    moreover from that(4) have "(of_char c :: nat) mod 16 = of_char c' mod 16"
      by (intro hex_digit_inj) simp_all
    ultimately have "(of_char c :: nat) = of_char c'"
      by (metis div_mult_mod_eq)
    then show ?thesis by simp
  qed
  from assms show ?thesis
    by (auto simp: json_escape_def split: if_splits dest: ctl)
qed

lemma escapes_inj:
  "concat (map json_escape s) @ CHR 0x22 # t = concat (map json_escape s') @ CHR 0x22 # t'
   \<Longrightarrow> s = s' \<and> t = t'"
proof (induction s arbitrary: s')
  case Nil
  show ?case
  proof (cases s')
    case Nil
    with Nil.prems show ?thesis by simp
  next
    case (Cons c' r')
    obtain e es where "json_escape c' = e # es" "e \<noteq> CHR 0x22"
      using json_escape_head by blast
    with Nil.prems Cons show ?thesis by simp
  qed
next
  case (Cons c r)
  show ?case
  proof (cases s')
    case Nil
    obtain e es where "json_escape c = e # es" "e \<noteq> CHR 0x22"
      using json_escape_head by blast
    with Cons.prems Nil show ?thesis by simp
  next
    case (Cons c' r')
    with Cons.prems have "json_escape c @ (concat (map json_escape r) @ CHR 0x22 # t)
        = json_escape c' @ (concat (map json_escape r') @ CHR 0x22 # t')"
      by simp
    then have "c = c' \<and> concat (map json_escape r) @ CHR 0x22 # t
        = concat (map json_escape r') @ CHR 0x22 # t'"
      by (rule json_escape_inj)
    with Cons.IH [of r'] Cons show ?thesis by simp
  qed
qed

lemma json_quote_inj:
  assumes "json_quote s @ t = json_quote s' @ t'"
  shows "s = s' \<and> t = t'"
proof -
  from assms have "concat (map json_escape s) @ CHR 0x22 # t
      = concat (map json_escape s') @ CHR 0x22 # t'"
    by (simp add: json_quote_def)
  then show ?thesis by (rule escapes_inj)
qed

lemma json_quote_head: "\<exists>es. json_quote s = CHR 0x22 # es"
  by (simp add: json_quote_def)

lemma json_value_inj:
  assumes "json_value v @ t = json_value v' @ t'"
  shows "v = v' \<and> t = t'"
proof (cases v)
  case None
  show ?thesis
  proof (cases v')
    case None
    with \<open>v = None\<close> assms show ?thesis by (simp add: json_value_def)
  next
    case (Some s')
    obtain es where "json_quote s' = CHR 0x22 # es" using json_quote_head by blast
    with \<open>v = None\<close> Some assms show ?thesis by (simp add: json_value_def)
  qed
next
  case (Some s)
  show ?thesis
  proof (cases v')
    case None
    obtain es where "json_quote s = CHR 0x22 # es" using json_quote_head by blast
    with \<open>v = Some s\<close> None assms show ?thesis by (simp add: json_value_def)
  next
    case (Some s')
    with \<open>v = Some s\<close> assms have "json_quote s @ t = json_quote s' @ t'"
      by (simp add: json_value_def)
    then have "s = s' \<and> t = t'" by (rule json_quote_inj)
    with \<open>v = Some s\<close> Some show ?thesis by simp
  qed
qed

lemma json_member_inj:
  assumes "json_member m @ t = json_member m' @ t'"
  shows "m = m' \<and> t = t'"
proof -
  from assms have "json_quote (fst m) @ (CHR '':'' # json_value (snd m) @ t)
      = json_quote (fst m') @ (CHR '':'' # json_value (snd m') @ t')"
    by (simp add: json_member_def)
  then have "fst m = fst m' \<and> CHR '':'' # json_value (snd m) @ t
      = CHR '':'' # json_value (snd m') @ t'"
    by (rule json_quote_inj)
  then have k: "fst m = fst m'"
    and "CHR '':'' # json_value (snd m) @ t = CHR '':'' # json_value (snd m') @ t'"
    by blast+
  then have "json_value (snd m) @ t = json_value (snd m') @ t'" by simp
  then have "snd m = snd m' \<and> t = t'" by (rule json_value_inj)
  with k show ?thesis by (simp add: prod_eq_iff)
qed

lemma json_member_head: "\<exists>es. json_member m = CHR 0x22 # es"
  using json_quote_head [of "fst m"] by (auto simp: json_member_def)

lemma json_join_Cons:
  "json_join (x # xs) = x @ (if xs = [] then [] else CHR '','' # json_join xs)"
  by (cases xs) simp_all

lemma members_inj:
  "json_join (map json_member r) @ CHR ''}'' # t = json_join (map json_member r') @ CHR ''}'' # t'
   \<Longrightarrow> r = r' \<and> t = t'"
proof (induction r arbitrary: r')
  case Nil
  show ?case
  proof (cases r')
    case Nil
    with Nil.prems show ?thesis by simp
  next
    case (Cons m' ms')
    obtain es where "json_member m' = CHR 0x22 # es" using json_member_head by blast
    with Nil.prems Cons show ?thesis by (simp add: json_join_Cons)
  qed
next
  case (Cons m ms)
  show ?case
  proof (cases r')
    case Nil
    obtain es where "json_member m = CHR 0x22 # es" using json_member_head by blast
    with Cons.prems Nil show ?thesis by (simp add: json_join_Cons)
  next
    case (Cons m' ms')
    let ?rest = "\<lambda>ns u. (if ns = [] then [] else CHR '','' # json_join (map json_member ns))
        @ CHR ''}'' # u"
    from Cons.prems Cons have "json_member m @ ?rest ms t = json_member m' @ ?rest ms' t'"
      by (simp add: json_join_Cons)
    then have "m = m' \<and> ?rest ms t = ?rest ms' t'"
      by (rule json_member_inj)
    then have mm: "m = m'" and rest: "?rest ms t = ?rest ms' t'"
      by blast+
    have "ms = ms' \<and> t = t'"
    proof (cases "ms = []")
      case True
      with rest show ?thesis by (cases "ms' = []") simp_all
    next
      case False
      with rest have ne: "ms' \<noteq> []" by (cases "ms' = []") simp_all
      with False rest have "json_join (map json_member ms) @ CHR ''}'' # t
          = json_join (map json_member ms') @ CHR ''}'' # t'"
        by simp
      then show ?thesis by (rule Cons.IH)
    qed
    with mm Cons show ?thesis by simp
  qed
qed

lemma JSON_stringify_inj: "(JSON_stringify w = JSON_stringify w') = (w = w')"
proof
  assume "JSON_stringify w = JSON_stringify w'"
  then have "json_join (map json_member w) @ CHR ''}'' # []
      = json_join (map json_member w') @ CHR ''}'' # []"
    by (simp add: JSON_stringify_def)
  then have "w = w' \<and> [] = ([]::string)" by (rule members_inj)
  then show "w = w'" by simp
next
  assume "w = w'"
  then show "JSON_stringify w = JSON_stringify w'" by simp
qed

lemma found_iff:
  "list_ex (\<lambda>w. JSON_stringify w = JSON_stringify cw) ws = (cw \<in> set ws)"
  by (auto simp: list_ex_iff JSON_stringify_inj)

lemma addToConfusing_eq:
  "currentWord s = Some r \<Longrightarrow>
   addToConfusing s
     = (if r \<in> set (confusingWords s) then s
        else s\<lparr>confusingWords := confusingWords s @ [r],
               storedConfusing := Some (JSON_stringify_array (confusingWords s @ [r]))\<rparr>)"
  by (simp add: addToConfusing_def Let_def found_iff)

lemma daySlices_confusing:
  "fst (daySlices (s\<lparr>confusingWords := c, storedConfusing := st\<rparr>)) = fst (daySlices s)"
  by (simp add: daySlices_def computeDaySlices_def Let_def split: option.split prod.split)

lemma currentWord_after_add:
  assumes "currentWord s = Some r"
  shows "currentWord (s\<lparr>confusingWords := confusingWords s @ [r], storedConfusing := st\<rparr>)
         = Some r"
proof (cases "showConfusing s")
  case True
  with assms have "js_index (confusingWords s) (currentIndex s) = Some r"
    by (simp add: currentWord_def currentWords_def)
  then have "js_index (confusingWords s @ [r]) (currentIndex s) = Some r"
    by (auto simp: js_index_def nth_append split: if_splits)
  with True show ?thesis by (simp add: currentWord_def currentWords_def)
next
  case False
  with assms show ?thesis
    by (auto simp: currentWord_def currentWords_def daySlices_confusing split: if_splits)
qed

text \<open>
  C7. Equal serialisations mean equal records, so the test in \<open>addToConfusing\<close> is
  value equality of the record, not identity. When the confusing set already has a
  record equal to the current word, \<open>addToConfusing\<close> returns the state unchanged;
  otherwise it appends the word and stores the new set. Adding a second time changes
  nothing: a word that was absent occurs exactly once after two additions.
\<close>

theorem addToConfusing_idempotent:
  assumes "currentWord s = Some r"
  shows "(r \<in> set (confusingWords s) \<longrightarrow> addToConfusing s = s)
         \<and> (r \<notin> set (confusingWords s) \<longrightarrow>
              addToConfusing s
                = s\<lparr>confusingWords := confusingWords s @ [r],
                     storedConfusing := Some (JSON_stringify_array (confusingWords s @ [r]))\<rparr>)
         \<and> (\<forall>w. (JSON_stringify w = JSON_stringify r) = (w = r))
         \<and> addToConfusing (addToConfusing s) = addToConfusing s
         \<and> (r \<notin> set (confusingWords s) \<longrightarrow>
              count_list (confusingWords (addToConfusing (addToConfusing s))) r = 1
              \<and> length (confusingWords (addToConfusing (addToConfusing s)))
                  = length (confusingWords s) + 1)"
proof -
  let ?s' = "s\<lparr>confusingWords := confusingWords s @ [r],
      storedConfusing := Some (JSON_stringify_array (confusingWords s @ [r]))\<rparr>"
  have a: "r \<in> set (confusingWords s) \<longrightarrow> addToConfusing s = s"
    using assms by (simp add: addToConfusing_eq)
  have b: "r \<notin> set (confusingWords s) \<longrightarrow> addToConfusing s = ?s'"
    using assms by (simp add: addToConfusing_eq)
  have c: "\<forall>w. (JSON_stringify w = JSON_stringify r) = (w = r)"
    by (simp add: JSON_stringify_inj)
  have d: "addToConfusing (addToConfusing s) = addToConfusing s"
  proof (cases "r \<in> set (confusingWords s)")
    case True
    with a show ?thesis by simp
  next
    case False
    from assms have "currentWord ?s' = Some r" by (rule currentWord_after_add)
    then have "addToConfusing ?s' = ?s'" by (simp add: addToConfusing_eq)
    with False b show ?thesis by simp
  qed
  have e: "r \<notin> set (confusingWords s) \<longrightarrow>
      count_list (confusingWords (addToConfusing (addToConfusing s))) r = 1
      \<and> length (confusingWords (addToConfusing (addToConfusing s)))
          = length (confusingWords s) + 1"
  proof
    assume n: "r \<notin> set (confusingWords s)"
    with b have "addToConfusing s = ?s'" by simp
    with d have "addToConfusing (addToConfusing s) = ?s'" by simp
    with n show "count_list (confusingWords (addToConfusing (addToConfusing s))) r = 1
      \<and> length (confusingWords (addToConfusing (addToConfusing s)))
          = length (confusingWords s) + 1"
      by (simp add: count_list_0_iff)
  qed
  from a b c d e show ?thesis by (intro conjI)
qed

theorem addToConfusing_idempotent_witness:
  "currentWord app1 = Some w1
   \<and> confusingWords (addToConfusing app1) = [w1]
   \<and> storedConfusing (addToConfusing app1) = Some ''[{\"ko\":\"sagwa\",\"en\":\"apple\"}]''
   \<and> confusingWords (addToConfusing (addToConfusing app1)) = [w1]
   \<and> addToConfusing (app1\<lparr>confusingWords := [w2, w1]\<rparr>) = app1\<lparr>confusingWords := [w2, w1]\<rparr>"
proof -
  have i: "currentIndex app1 = 0" by (simp add: app1_eq)
  have c: "currentWord app1 = Some w1"
    by (simp add: currentWord_def currentWords_app1 js_index_def i)
  have c': "currentWord (app1\<lparr>confusingWords := [w2, w1]\<rparr>) = Some w1"
    by (simp add: currentWord_def currentWords_def daySlices_def js_index_def app1_eq)
  have e: "confusingWords app1 = []" by (simp add: app1_eq)
  have j: "JSON_stringify_array [w1] = ''[{\"ko\":\"sagwa\",\"en\":\"apple\"}]''"
    by (simp add: JSON_stringify_array_def JSON_stringify_def json_member_def json_quote_def
        json_value_def json_escape_def w1_def)
  from addToConfusing_idempotent [OF c] e
  have s1: "addToConfusing app1
      = app1\<lparr>confusingWords := [w1], storedConfusing := Some (JSON_stringify_array [w1])\<rparr>"
    by simp
  from addToConfusing_idempotent [OF c]
  have d: "addToConfusing (addToConfusing app1) = addToConfusing app1"
    by blast
  have m: "w1 \<in> set (confusingWords (app1\<lparr>confusingWords := [w2, w1]\<rparr>))"
    by simp
  from addToConfusing_idempotent [OF c'] m
  have s2: "addToConfusing (app1\<lparr>confusingWords := [w2, w1]\<rparr>)
      = app1\<lparr>confusingWords := [w2, w1]\<rparr>"
    by blast
  have "confusingWords (addToConfusing app1) = [w1]"
    "storedConfusing (addToConfusing app1) = Some ''[{\"ko\":\"sagwa\",\"en\":\"apple\"}]''"
    by (simp_all add: s1 j)
  with d c s2 show ?thesis by simp
qed

end
